theory Spec2Isabelle
  imports Main "HOL-Library.Word"
begin

section \<open>The Mana NFT collection contract\<close>

text \<open>
  A shallow embedding of \<^verbatim>\<open>src/assembly/Constants.ts\<close>: the constants of namespace
  \<^verbatim>\<open>Constants\<close> and the class \<^verbatim>\<open>Collections\<close>. The contract runs on the Koinos
  host; the pieces it imports from the SDK (\<^verbatim>\<open>System\<close>, \<^verbatim>\<open>SafeMath\<close>, \<^verbatim>\<open>Storage\<close>,
  \<^verbatim>\<open>Base58\<close>) are modelled by what they return to the contract.
\<close>

subsection \<open>Machine types\<close>

type_synonym u64 = "64 word"
type_synonym i32 = "32 word"

text \<open>\<^verbatim>\<open>Uint8Array\<close>: account addresses.\<close>
type_synonym bytes = "8 word list"

subsection \<open>Namespace Constants\<close>

definition MINT_PRICE :: u64 where
  "MINT_PRICE = 100000000"

definition MAX_SUPPLY :: u64 where
  "MAX_SUPPLY = 10000000"

subsection \<open>Failures\<close>

text \<open>
  \<^verbatim>\<open>System.require(cond, message, code)\<close> ends the call with the given code (the default is
  \<^verbatim>\<open>reversion\<close>) when the condition is false; \<^verbatim>\<open>System.requireAuthority\<close> ends it with an
  authorization failure; the \<^verbatim>\<open>SafeMath\<close> operations revert on overflow, underflow and
  division by zero. A call that ends this way has no effect on storage: the host drops
  its writes. So a failed call is a value \<open>Inl e\<close> that carries no state.
\<close>

datatype error_code = reversion | failure | authorization_failure

datatype error =
    Require error_code string
  | Require_authority bytes
  | SafeMath_add
  | SafeMath_sub
  | SafeMath_mul
  | SafeMath_div

definition require :: "bool \<Rightarrow> string \<Rightarrow> error_code \<Rightarrow> error + unit" where
  "require cond message code = (if cond then Inr () else Inl (Require code message))"

definition and_then :: "error + 'a \<Rightarrow> ('a \<Rightarrow> error + 'b) \<Rightarrow> error + 'b" where
  "and_then r f = (case r of Inl e \<Rightarrow> Inl e | Inr x \<Rightarrow> f x)"

text \<open>
  The state after a call, as the next call sees it: the writes of a successful call, the
  state before it for a failed one.
\<close>

definition state_after :: "'s \<Rightarrow> error + 's \<times> 'a \<Rightarrow> 's" where
  "state_after s r = (case r of Inl e \<Rightarrow> s | Inr (s', out) \<Rightarrow> s')"

subsection \<open>SafeMath on u64\<close>

definition safe_add :: "u64 \<Rightarrow> u64 \<Rightarrow> error + u64" where
  "safe_add a b = (if unat a + unat b < 2 ^ 64 then Inr (a + b) else Inl SafeMath_add)"

definition safe_sub :: "u64 \<Rightarrow> u64 \<Rightarrow> error + u64" where
  "safe_sub a b = (if b \<le> a then Inr (a - b) else Inl SafeMath_sub)"

definition safe_mul :: "u64 \<Rightarrow> u64 \<Rightarrow> error + u64" where
  "safe_mul a b = (if unat a * unat b < 2 ^ 64 then Inr (a * b) else Inl SafeMath_mul)"

definition safe_div :: "u64 \<Rightarrow> u64 \<Rightarrow> error + u64" where
  "safe_div a b = (if b = 0 then Inl SafeMath_div else Inr (a div b))"

subsection \<open>Records of the protobuf schema\<close>

record royalty_object =
  address :: bytes
  amount :: u64

record config_object =
  owner :: bytes
  royalties :: "royalty_object list"

datatype event_data =
    mint_event bytes string
  | transfer_event bytes bytes string
  | token_approval_event bytes bytes string
  | operator_approval_event bytes bytes bool
  | royalties_event "royalty_object list"
  | owner_event bytes bytes

text \<open>\<^verbatim>\<open>System.event(name, data, impacted)\<close>: the payload and the impacted accounts.\<close>
type_synonym event = "event_data \<times> bytes list"

subsection \<open>Storage\<close>

text \<open>
  One field per storage space of the constructor. A \<^verbatim>\<open>Storage.Map\<close> is a map from keys to
  stored objects, a \<^verbatim>\<open>Storage.Obj\<close> a single optional object. Token ids are the storage
  keys of \<^verbatim>\<open>_tokens\<close> and \<^verbatim>\<open>_approvals\<close>: strings. \<^verbatim>\<open>StringBytes.bytesToString\<close> and
  \<^verbatim>\<open>stringToBytes\<close> carry an id between its argument bytes and its key; the model writes
  both as the same \<^typ>\<open>string\<close>.
\<close>

record storage =
  supply_obj :: "u64 option"
  tokens :: "string \<rightharpoonup> bytes"
  balances :: "bytes \<rightharpoonup> u64"
  approvals :: "string \<rightharpoonup> bytes"
  operators :: "string \<rightharpoonup> bool"
  tokensOf :: "bytes \<rightharpoonup> string list"
  config :: "config_object option"
  manaCost :: "u64 option"

definition init_state :: storage where
  "init_state = \<lparr> supply_obj = None, tokens = Map.empty, balances = Map.empty,
     approvals = Map.empty, operators = Map.empty, tokensOf = Map.empty,
     config = None, manaCost = None \<rparr>"

text \<open>
  What the host and the SDK answer during one call: the contract id, the decoded
  \<^verbatim>\<open>Constants.OWNER\<close>, the caller, the authority check for \<^verbatim>\<open>contract_call\<close>, the Base58
  encoder and the resource limits.
\<close>

record env =
  contract_id :: bytes
  OWNER :: bytes
  caller :: bytes
  check_authority :: "bytes \<Rightarrow> bool"
  base58_encode :: "bytes \<Rightarrow> string"
  compute_bandwidth_cost :: u64
  network_bandwidth_cost :: u64
  disk_storage_cost :: u64

text \<open>\<^verbatim>\<open>get()\<close> of each space, with the default value the constructor gives it.\<close>

definition supply_get :: "storage \<Rightarrow> u64" where
  "supply_get s = (case supply_obj s of None \<Rightarrow> 0 | Some v \<Rightarrow> v)"

definition balances_get :: "storage \<Rightarrow> bytes \<Rightarrow> u64" where
  "balances_get s a = (case balances s a of None \<Rightarrow> 0 | Some v \<Rightarrow> v)"

definition tokensOf_get :: "storage \<Rightarrow> bytes \<Rightarrow> string list" where
  "tokensOf_get s a = (case tokensOf s a of None \<Rightarrow> [] | Some ids \<Rightarrow> ids)"

definition config_get :: "env \<Rightarrow> storage \<Rightarrow> config_object" where
  "config_get e s = (case config s of
       None \<Rightarrow> \<lparr> owner = (if length (OWNER e) = 0 then contract_id e else OWNER e),
                 royalties = [] \<rparr>
     | Some c \<Rightarrow> c)"

definition manaCost_get :: "storage \<Rightarrow> u64" where
  "manaCost_get s = (case manaCost s of None \<Rightarrow> MINT_PRICE | Some v \<Rightarrow> v)"

definition require_authority :: "env \<Rightarrow> bytes \<Rightarrow> error + unit" where
  "require_authority e account =
     (if check_authority e account then Inr () else Inl (Require_authority account))"

subsection \<open>Queries\<close>

definition total_supply :: "storage \<Rightarrow> u64" where
  "total_supply s = supply_get s"

definition royalties_query :: "env \<Rightarrow> storage \<Rightarrow> royalty_object list" where
  "royalties_query e s = royalties (config_get e s)"

definition owner_query :: "env \<Rightarrow> storage \<Rightarrow> bytes" where
  "owner_query e s = owner (config_get e s)"

definition balance_of :: "storage \<Rightarrow> bytes \<Rightarrow> u64" where
  "balance_of s account = balances_get s account"

definition tokens_of :: "storage \<Rightarrow> bytes \<Rightarrow> string list" where
  "tokens_of s account = tokensOf_get s account"

text \<open>A fresh \<^verbatim>\<open>address_object\<close> holds the empty byte array: that is what an absent
  owner or approval reads as.\<close>

definition owner_of :: "storage \<Rightarrow> string \<Rightarrow> bytes" where
  "owner_of s token_id = (case tokens s token_id of None \<Rightarrow> [] | Some token_owner \<Rightarrow> token_owner)"

definition get_approved :: "storage \<Rightarrow> string \<Rightarrow> bytes" where
  "get_approved s token_id = (case approvals s token_id of None \<Rightarrow> [] | Some a \<Rightarrow> a)"

definition get_approved_operator_key :: "env \<Rightarrow> bytes \<Rightarrow> bytes \<Rightarrow> string" where
  "get_approved_operator_key e operator account =
     base58_encode e operator @ ''_'' @ base58_encode e account"

definition is_approved_for_all :: "env \<Rightarrow> storage \<Rightarrow> bytes \<Rightarrow> bytes \<Rightarrow> bool" where
  "is_approved_for_all e s account operator =
     (case operators s (get_approved_operator_key e operator account) of
        None \<Rightarrow> False | Some approved \<Rightarrow> approved)"

subsection \<open>set\_royalties, transfer\_ownership, burn\<close>

fun royalties_loop ::
  "royalty_object list \<Rightarrow> u64 \<Rightarrow> bytes list \<Rightarrow> error + u64 \<times> bytes list" where
  "royalties_loop [] royaltiesTotal impacted = Inr (royaltiesTotal, impacted)"
| "royalties_loop (royalty # rest) royaltiesTotal impacted =
     and_then (safe_add royaltiesTotal (amount royalty))
       (\<lambda>total'. royalties_loop rest total' (impacted @ [address royalty]))"

definition set_royalties :: "env \<Rightarrow> royalty_object list \<Rightarrow> storage \<Rightarrow> error + storage \<times> event list" where
  "set_royalties e value s =
     (let cfg = config_get e s in
      and_then (require_authority e (owner cfg)) (\<lambda>_.
      and_then (royalties_loop value 0 []) (\<lambda>(royaltiesTotal, impacted).
      and_then (require (royaltiesTotal \<le> 10000)
                  ''MarketplaceV1.execute: ROYALTY_EXCEEDED_MAX'' reversion) (\<lambda>_.
        Inr (s\<lparr>config := Some (cfg\<lparr>royalties := value\<rparr>)\<rparr>,
             [(royalties_event value, impacted)])))))"

definition transfer_ownership :: "env \<Rightarrow> bytes \<Rightarrow> storage \<Rightarrow> error + storage \<times> event list" where
  "transfer_ownership e new_owner s =
     (let cfg = config_get e s in
      and_then (require_authority e (owner cfg)) (\<lambda>_.
        Inr (s\<lparr>config := Some (cfg\<lparr>owner := new_owner\<rparr>)\<rparr>,
             [(owner_event (owner cfg) new_owner, [owner cfg, new_owner])])))"

definition burn :: "string \<Rightarrow> storage \<Rightarrow> error + storage \<times> event list" where
  "burn token_id s = Inr (s, [])"

subsection \<open>mint\<close>

text \<open>\<^verbatim>\<open>index.toString()\<close> on a \<^verbatim>\<open>u64\<close>: the decimal digits, most significant first.\<close>

function decimal :: "nat \<Rightarrow> string" where
  "decimal n = (if n < 10 then [''0123456789'' ! n]
                else decimal (n div 10) @ [''0123456789'' ! (n mod 10)])"
  by pat_completeness auto
termination
  by (relation "measure (\<lambda>n. n)") auto

declare decimal.simps [simp del]

definition toString :: "u64 \<Rightarrow> string" where
  "toString index = decimal (unat index)"

text \<open>One round of the minting loop: store the token, append its id to the list of
  \<open>to\<close>, emit the event.\<close>

definition mint_body :: "bytes \<Rightarrow> u64 \<Rightarrow> storage \<times> event list \<Rightarrow> storage \<times> event list" where
  "mint_body to index acc =
     (case acc of (s, events) \<Rightarrow>
        let tokenId = toString index;
            s1 = s\<lparr>tokens := (tokens s)(tokenId \<mapsto> to)\<rparr>;
            s2 = s1\<lparr>tokensOf := (tokensOf s1)(to \<mapsto> tokensOf_get s1 to @ [tokenId])\<rparr>
        in (s2, events @ [(mint_event to tokenId, [to])]))"

text \<open>
  \<^verbatim>\<open>for (let index: u64 = start; index <= tokens; index++)\<close>. The increment wraps, so
  with \<open>tokens = 2 ^ 64 - 1\<close> the loop would never end: \<open>None\<close> stands for that.
\<close>

partial_function (option) mint_loop ::
  "bytes \<Rightarrow> u64 \<Rightarrow> u64 \<Rightarrow> storage \<times> event list \<Rightarrow> (storage \<times> event list) option" where
  "mint_loop to index tokens_total acc =
     (if index \<le> tokens_total then mint_loop to (index + 1) tokens_total (mint_body to index acc)
      else Some acc)"

text \<open>
  \<^verbatim>\<open>_consumeMana\<close>: the loop counter \<open>i\<close> is a \<^verbatim>\<open>u64\<close>, the local \<open>compute\<close> an
  \<^verbatim>\<open>i32\<close>. \<open>rounds\<close> counts the rounds of the loop that were run; that is the only
  effect of the function.
\<close>

function consume_loop :: "u64 \<Rightarrow> u64 \<Rightarrow> i32 \<Rightarrow> nat \<Rightarrow> nat" where
  "consume_loop i loops compute rounds =
     (if i < loops then consume_loop (i + 1) loops (compute + 1) (Suc rounds) else rounds)"
  by pat_completeness auto
termination
proof (relation "measure (\<lambda>(i, loops, compute, rounds). unat loops - unat i)")
  show "wf (measure (\<lambda>(i, loops, compute, rounds). unat loops - unat i))"
    by simp
next
  fix i loops :: u64 and compute :: i32 and rounds :: nat
  assume "i < loops"
  then have less: "unat i < unat loops"
    by (simp add: word_less_nat_alt)
  have "unat loops < 2 ^ 64"
    using unsigned_less [of loops] by simp
  with less have "unat i + 1 < 2 ^ 64"
    by simp
  then have "unat (i + 1) = unat i + 1"
    by (simp add: unat_word_ariths)
  with less show "((i + 1, loops, compute + 1, Suc rounds), (i, loops, compute, rounds))
      \<in> measure (\<lambda>(i, loops, compute, rounds). unat loops - unat i)"
    by simp
qed

declare consume_loop.simps [simp del]

definition consumeMana :: "u64 \<Rightarrow> u64 \<Rightarrow> error + nat" where
  "consumeMana manaToConsume computeCost =
     and_then (safe_div manaToConsume computeCost) (\<lambda>computeToConsume.
     and_then (safe_div computeToConsume 14) (\<lambda>loops.
       Inr (consume_loop 0 loops 0 0)))"

text \<open>The mana still to be spent once the tokens are written (the part of \<^verbatim>\<open>mint\<close>
  from \<^verbatim>\<open>System.getResourceLimits()\<close> to the call of \<^verbatim>\<open>_consumeMana\<close>).\<close>

definition remainingManaToConsume :: "env \<Rightarrow> u64 \<Rightarrow> storage \<Rightarrow> error + u64" where
  "remainingManaToConsume e number_tokens_to_mint s =
     and_then (safe_mul 1123019 (compute_bandwidth_cost e)) (\<lambda>computePart.
     and_then (safe_mul 282 (network_bandwidth_cost e)) (\<lambda>networkPart.
     and_then (safe_add computePart networkPart) (\<lambda>partial_sum.
     and_then (safe_mul 66 (disk_storage_cost e)) (\<lambda>diskPart.
     and_then (safe_add partial_sum diskPart) (\<lambda>manaConsumed.
     and_then (safe_mul (manaCost_get s) number_tokens_to_mint) (\<lambda>totalManaToConsume.
       Inr (if totalManaToConsume > manaConsumed then totalManaToConsume - manaConsumed
            else 0)))))))"

text \<open>The part of \<^verbatim>\<open>mint\<close> after the loop: balance, supply, mana. \<open>balance\<close> and
  \<open>supply_value\<close> were read before the loop.\<close>

definition mint_finish ::
  "env \<Rightarrow> bytes \<Rightarrow> u64 \<Rightarrow> u64 \<Rightarrow> u64 \<Rightarrow> storage \<times> event list
     \<Rightarrow> error + storage \<times> event list \<times> nat" where
  "mint_finish e to number_tokens_to_mint balance supply_value acc =
     (case acc of (s1, events) \<Rightarrow>
      and_then (safe_add balance number_tokens_to_mint) (\<lambda>balance'.
      and_then (require (balance' \<le> MAX_SUPPLY)
                  ''exceeds the limit of tokens per address'' reversion) (\<lambda>_.
      and_then (safe_add supply_value number_tokens_to_mint) (\<lambda>supply'.
        let s2 = s1\<lparr>balances := (balances s1)(to \<mapsto> balance')\<rparr>;
            s3 = s2\<lparr>supply_obj := Some supply'\<rparr>
        in
      and_then (remainingManaToConsume e number_tokens_to_mint s3) (\<lambda>remaining.
      and_then (consumeMana remaining (compute_bandwidth_cost e)) (\<lambda>rounds.
        Inr (s3, events, rounds)))))))"

text \<open>\<^verbatim>\<open>mint\<close>. The result is \<open>None\<close> if the call does not return, else the failure or
  the new storage, the events and the rounds of busy work.\<close>

definition mint ::
  "env \<Rightarrow> bytes \<Rightarrow> u64 \<Rightarrow> storage \<Rightarrow> (error + storage \<times> event list \<times> nat) option" where
  "mint e to number_tokens_to_mint s =
     (let supply_value = supply_get s;
          balance = balances_get s to
      in case safe_add supply_value number_tokens_to_mint of
           Inl err \<Rightarrow> Some (Inl err)
         | Inr tokens_total \<Rightarrow>
             if \<not> number_tokens_to_mint \<le> 10
             then Some (Inl (Require reversion ''exceeds the limit of tokens to mint of 10''))
             else if \<not> tokens_total > 0
             then Some (Inl (Require reversion ''token id out of bounds''))
             else if \<not> tokens_total \<le> MAX_SUPPLY
             then Some (Inl (Require reversion ''token id out of bounds''))
             else (case safe_add supply_value 1 of
                     Inl err \<Rightarrow> Some (Inl err)
                   | Inr start \<Rightarrow>
                       (case mint_loop to start tokens_total (s, []) of
                          None \<Rightarrow> None
                        | Some acc \<Rightarrow>
                            Some (mint_finish e to number_tokens_to_mint balance supply_value acc))))"

subsection \<open>transfer\<close>

text \<open>\<^verbatim>\<open>Array#indexOf\<close>: the first index of the element, \<open>-1\<close> if there is none.\<close>

fun indexOf :: "'a list \<Rightarrow> 'a \<Rightarrow> int" where
  "indexOf [] x = -1"
| "indexOf (y # ys) x =
     (if y = x then 0 else (let i = indexOf ys x in if i < 0 then -1 else i + 1))"

text \<open>\<^verbatim>\<open>list.splice(i, 1)\<close> for an index within the list.\<close>

definition splice1 :: "'a list \<Rightarrow> nat \<Rightarrow> 'a list" where
  "splice1 xs i = take i xs @ drop (Suc i) xs"

text \<open>The approval check for a caller other than \<open>from\<close>: the value of
  \<^verbatim>\<open>isTokenApproved\<close> when \<^verbatim>\<open>System.require\<close> tests it.\<close>

definition isTokenApproved :: "env \<Rightarrow> bytes \<Rightarrow> string \<Rightarrow> bytes \<Rightarrow> storage \<Rightarrow> bool" where
  "isTokenApproved e frm token_id token_owner s =
     (let direct = (case approvals s token_id of
                      None \<Rightarrow> False
                    | Some approvedAddress \<Rightarrow> approvedAddress = caller e)
      in if \<not> direct
         then (let by_operator =
                     (case operators s (get_approved_operator_key e (caller e) token_owner) of
                        None \<Rightarrow> direct
                      | Some approved \<Rightarrow> approved)
               in if \<not> by_operator then check_authority e frm else by_operator)
         else direct)"

definition transfer ::
  "env \<Rightarrow> bytes \<Rightarrow> bytes \<Rightarrow> string \<Rightarrow> storage \<Rightarrow> error + storage \<times> event list" where
  "transfer e frm to token_id s =
     (case tokens s token_id of
        None \<Rightarrow> Inl (Require failure ''nonexistent token'')
      | Some token_owner \<Rightarrow>
     and_then (require (token_owner = frm) ''from is not a owner'' authorization_failure) (\<lambda>_.
     and_then (if caller e \<noteq> frm
               then require (isTokenApproved e frm token_id token_owner s)
                      ''from has not authorized transfer'' authorization_failure
               else Inr ()) (\<lambda>_.
       let s1 = s\<lparr>approvals := (approvals s)(token_id := None)\<rparr> in
     and_then (safe_sub (balances_get s1 frm) 1) (\<lambda>balance_from.
     and_then (safe_add (balances_get s1 to) 1) (\<lambda>balance_to.
       let tokens_list_from = tokensOf_get s1 frm;
           tokens_list_to = tokensOf_get s1 to;
           token_index = indexOf tokens_list_from token_id
       in
     and_then (require (token_index \<ge> 0)
                 ''the sender do not own this token according to tokens list'' reversion) (\<lambda>_.
       let tokens_list_from' = splice1 tokens_list_from (nat token_index);
           tokens_list_to' = tokens_list_to @ [token_id];
           s2 = s1\<lparr>tokensOf := (tokensOf s1)(frm \<mapsto> tokens_list_from')\<rparr>;
           s3 = s2\<lparr>tokensOf := (tokensOf s2)(to \<mapsto> tokens_list_to')\<rparr>;
           s4 = s3\<lparr>tokens := (tokens s3)(token_id \<mapsto> to)\<rparr>;
           s5 = s4\<lparr>balances := (balances s4)(to \<mapsto> balance_to)\<rparr>;
           s6 = s5\<lparr>balances := (balances s5)(frm \<mapsto> balance_from)\<rparr>
       in Inr (s6, [(transfer_event frm to token_id, [to, frm])])))))))"

subsection \<open>approve, set\_approval\_for\_all\<close>

definition approve ::
  "env \<Rightarrow> bytes \<Rightarrow> bytes \<Rightarrow> string \<Rightarrow> storage \<Rightarrow> error + storage \<times> event list" where
  "approve e approver_address to token_id s =
     and_then (require_authority e approver_address) (\<lambda>_.
       case tokens s token_id of
         None \<Rightarrow> Inl (Require failure ''nonexistent token'')
       | Some token_owner \<Rightarrow>
     and_then (require (token_owner \<noteq> to) ''approve to current owner'' failure) (\<lambda>_.
     and_then (if token_owner \<noteq> approver_address
               then (case operators s (get_approved_operator_key e approver_address token_owner) of
                       None \<Rightarrow> Inl (Require authorization_failure ''approved does not exist'')
                     | Some approved \<Rightarrow>
                         require approved ''approver_address is not owner'' authorization_failure)
               else Inr ()) (\<lambda>_.
       Inr (s\<lparr>approvals := (approvals s)(token_id \<mapsto> to)\<rparr>,
            [(token_approval_event approver_address to token_id, [to, approver_address])]))))"

definition set_approval_for_all ::
  "env \<Rightarrow> bytes \<Rightarrow> bytes \<Rightarrow> bool \<Rightarrow> storage \<Rightarrow> error + storage \<times> event list" where
  "set_approval_for_all e approver_address operator_address approved s =
     and_then (require_authority e approver_address) (\<lambda>_.
     and_then (require (approver_address \<noteq> operator_address)
                 ''approve to operator_address'' authorization_failure) (\<lambda>_.
       Inr (s\<lparr>operators := (operators s)
                 (get_approved_operator_key e operator_address approver_address \<mapsto> approved)\<rparr>,
            [(operator_approval_event approver_address operator_address approved,
              [operator_address, approver_address])])))"

subsection \<open>Reachable states\<close>

text \<open>The states the contract can be in: the empty storage, and the storage after any
  successful call of a public operation, each call with its own caller and host answers.\<close>

inductive reachable :: "storage \<Rightarrow> bool" where
  reach_init: "reachable init_state"
| reach_mint: "reachable s \<Longrightarrow> mint e to n s = Some (Inr (s', events, rounds)) \<Longrightarrow> reachable s'"
| reach_transfer: "reachable s \<Longrightarrow> transfer e frm to token_id s = Inr (s', events) \<Longrightarrow> reachable s'"
| reach_approve: "reachable s \<Longrightarrow> approve e approver to token_id s = Inr (s', events) \<Longrightarrow> reachable s'"
| reach_set_approval_for_all:
    "reachable s \<Longrightarrow> set_approval_for_all e approver operator approved s = Inr (s', events)
       \<Longrightarrow> reachable s'"
| reach_burn: "reachable s \<Longrightarrow> burn token_id s = Inr (s', events) \<Longrightarrow> reachable s'"
| reach_set_royalties: "reachable s \<Longrightarrow> set_royalties e value s = Inr (s', events) \<Longrightarrow> reachable s'"
| reach_transfer_ownership:
    "reachable s \<Longrightarrow> transfer_ownership e new_owner s = Inr (s', events) \<Longrightarrow> reachable s'"

subsection \<open>The failure kinds of the specification\<close>

text \<open>
  The specification (section 7) names kinds of failure; the code has messages and
  codes. \<open>kind_of_error\<close> reads each failure of the code as the kind the specification
  gives it: a count outside the range is a validation failure, a ceiling or an overflow a
  capacity failure, a missing authority or approval an authorization failure. A failure
  the specification does not name has no kind.
\<close>

datatype error_kind =
    ValidationError
  | CapacityError
  | AuthorizationError
  | NotFoundError
  | InvariantViolation
  | InsufficientBalanceError

fun kind_of_error :: "error \<Rightarrow> error_kind option" where
  "kind_of_error (Require code message) =
     (if code = authorization_failure then Some AuthorizationError
      else if message = ''nonexistent token'' then Some NotFoundError
      else if message = ''exceeds the limit of tokens to mint of 10'' then Some ValidationError
      else if message = ''token id out of bounds'' then Some CapacityError
      else if message = ''exceeds the limit of tokens per address'' then Some CapacityError
      else if message = ''the sender do not own this token according to tokens list''
        then Some InvariantViolation
      else None)"
| "kind_of_error (Require_authority account) = Some AuthorizationError"
| "kind_of_error SafeMath_add = Some CapacityError"
| "kind_of_error SafeMath_mul = Some CapacityError"
| "kind_of_error SafeMath_sub = Some InsufficientBalanceError"
| "kind_of_error SafeMath_div = None"

subsection \<open>Example accounts and hosts\<close>

definition alice :: bytes where
  "alice = [1]"

definition bob :: bytes where
  "bob = [2]"

definition carol :: bytes where
  "carol = [3]"

text \<open>A host where the caller \<open>c\<close> holds the authority of \<open>c\<close> alone.\<close>

definition host :: "bytes \<Rightarrow> env" where
  "host c = \<lparr> contract_id = [0], OWNER = alice, caller = c,
     check_authority = (\<lambda>account. account = c),
     base58_encode = map (\<lambda>b. ''0123456789'' ! (unat b mod 10)),
     compute_bandwidth_cost = 89, network_bandwidth_cost = 100, disk_storage_cost = 100 \<rparr>"

text \<open>The storage after \<open>alice\<close> has minted token \<open>1\<close>.\<close>

definition alice_has_one :: storage where
  "alice_has_one = \<lparr> supply_obj = Some 1, tokens = [''1'' \<mapsto> alice], balances = [alice \<mapsto> 1],
     approvals = Map.empty, operators = Map.empty, tokensOf = [alice \<mapsto> [''1'']],
     config = None, manaCost = None \<rparr>"

text \<open>The storage after \<open>alice\<close> has minted tokens \<open>1\<close> and \<open>2\<close>, and the storage after
  she has then transferred token \<open>2\<close> to herself.\<close>

definition alice_has_two :: storage where
  "alice_has_two = \<lparr> supply_obj = Some 2, tokens = [''1'' \<mapsto> alice, ''2'' \<mapsto> alice],
     balances = [alice \<mapsto> 2], approvals = Map.empty, operators = Map.empty,
     tokensOf = [alice \<mapsto> [''1'', ''2'']], config = None, manaCost = None \<rparr>"

definition alice_moved_two :: storage where
  "alice_moved_two = \<lparr> supply_obj = Some 2, tokens = [''1'' \<mapsto> alice, ''2'' \<mapsto> alice],
     balances = [alice \<mapsto> 1], approvals = Map.empty, operators = Map.empty,
     tokensOf = [alice \<mapsto> [''1'', ''2'', ''2'']], config = None, manaCost = None \<rparr>"

subsection \<open>The mana meter as the specification words it\<close>

text \<open>
  Section 4.5 of the specification, over the integers: the residual is
  \<open>max(0, totalMana - attributedMana)\<close> with the weights 1123019, 282 and 66, and the
  number of work units is \<open>residual / computeCostPerUnit / perUnitWorkCost\<close> with the
  work cost 14 of \<^verbatim>\<open>_consumeMana\<close>.
\<close>

definition spec_residual :: "int \<Rightarrow> int \<Rightarrow> int \<Rightarrow> int \<Rightarrow> int \<Rightarrow> int" where
  "spec_residual p count c n d = max 0 (p * count - (1123019 * c + 282 * n + 66 * d))"

definition spec_work_units :: "int \<Rightarrow> int \<Rightarrow> int" where
  "spec_work_units residual c = (residual div c) div 14"

subsection \<open>What every reachable storage satisfies\<close>

text \<open>The sum of the stored balances.\<close>

definition balance_sum :: "storage \<Rightarrow> nat" where
  "balance_sum s = (\<Sum>a \<in> dom (balances s). unat (balances_get s a))"

text \<open>
  Finitely many balances are stored, their sum is at most the supply, the supply is at
  most \<^verbatim>\<open>MAX_SUPPLY\<close>, and every token is in the list of its owner.
\<close>

definition ledger_bounded :: "storage \<Rightarrow> bool" where
  "ledger_bounded s \<longleftrightarrow>
     finite (dom (balances s))
     \<and> balance_sum s \<le> unat (supply_get s)
     \<and> supply_get s \<le> MAX_SUPPLY
     \<and> (\<forall>t a. tokens s t = Some a \<longrightarrow> t \<in> set (tokensOf_get s a))"

subsection \<open>Runs without a transfer from an account to itself\<close>

text \<open>The reachable storages again, with every transfer between two different
  accounts.\<close>

inductive reachable_apart :: "storage \<Rightarrow> bool" where
  apart_init: "reachable_apart init_state"
| apart_mint:
    "reachable_apart s \<Longrightarrow> mint e to n s = Some (Inr (s', events, rounds)) \<Longrightarrow> reachable_apart s'"
| apart_transfer:
    "reachable_apart s \<Longrightarrow> frm \<noteq> to \<Longrightarrow> transfer e frm to token_id s = Inr (s', events)
       \<Longrightarrow> reachable_apart s'"
| apart_approve:
    "reachable_apart s \<Longrightarrow> approve e approver to token_id s = Inr (s', events)
       \<Longrightarrow> reachable_apart s'"
| apart_set_approval_for_all:
    "reachable_apart s \<Longrightarrow> set_approval_for_all e approver operator approved s = Inr (s', events)
       \<Longrightarrow> reachable_apart s'"
| apart_burn: "reachable_apart s \<Longrightarrow> burn token_id s = Inr (s', events) \<Longrightarrow> reachable_apart s'"
| apart_set_royalties:
    "reachable_apart s \<Longrightarrow> set_royalties e value s = Inr (s', events) \<Longrightarrow> reachable_apart s'"
| apart_transfer_ownership:
    "reachable_apart s \<Longrightarrow> transfer_ownership e new_owner s = Inr (s', events)
       \<Longrightarrow> reachable_apart s'"

text \<open>
  The ledger in step: the token ids are the decimal strings of 1 up to the supply, the
  list of every account holds exactly the tokens it owns, each once, and its stored
  balance is the length of the list.
\<close>

definition ledger_consistent :: "storage \<Rightarrow> bool" where
  "ledger_consistent s \<longleftrightarrow>
     supply_get s \<le> MAX_SUPPLY
     \<and> dom (tokens s) = decimal ` {1 .. unat (supply_get s)}
     \<and> (\<forall>a. distinct (tokensOf_get s a)
            \<and> set (tokensOf_get s a) = {t. tokens s t = Some a}
            \<and> unat (balances_get s a) = length (tokensOf_get s a))"

section \<open>Properties\<close>

subsection \<open>Sequencing and SafeMath\<close>

lemma and_then_Inl [simp]: "and_then (Inl err) f = Inl err"
  by (simp add: and_then_def)

lemma and_then_Inr [simp]: "and_then (Inr x) f = f x"
  by (simp add: and_then_def)

lemma and_then_eq_Inr:
  "and_then r f = Inr y \<longleftrightarrow> (\<exists>x. r = Inr x \<and> f x = Inr y)"
  by (cases r) simp_all

lemma require_eq_Inr [simp]: "require c m code = Inr u \<longleftrightarrow> c"
  by (simp add: require_def)

lemma require_True [simp]: "c \<Longrightarrow> require c m code = Inr ()"
  by (simp add: require_def)

lemma require_False [simp]: "\<not> c \<Longrightarrow> require c m code = Inl (Require code m)"
  by (simp add: require_def)

lemma state_after_Inl [simp]: "state_after s (Inl err) = s"
  by (simp add: state_after_def)

lemma state_after_Inr [simp]: "state_after s (Inr (s', out)) = s'"
  by (simp add: state_after_def)

lemma safe_add_eq_Inr:
  "safe_add a b = Inr c \<longleftrightarrow> unat a + unat b < 2 ^ 64 \<and> c = a + b"
  by (auto simp: safe_add_def)

lemma safe_add_unat:
  "safe_add a b = Inr c \<Longrightarrow> unat c = unat a + unat b"
  by (auto simp: safe_add_def unat_word_ariths split: if_splits)

subsection \<open>Words, the minting loop and the mana loop\<close>

lemma unat_u64_less: "unat (w :: u64) < 2 ^ 64"
  using unsigned_less [of w] by simp

lemma unat_Suc_u64: "unat (w :: u64) < 2 ^ 64 - 1 \<Longrightarrow> unat (w + 1) = Suc (unat w)"
  by (simp add: unat_word_ariths)

lemma unat_MAX_SUPPLY: "unat MAX_SUPPLY = 10000000"
  by (simp add: MAX_SUPPLY_def)

lemma mint_loop_eq:
  "unat tokens_total < 2 ^ 64 - 1 \<Longrightarrow>
   mint_loop to index tokens_total acc
     = Some (foldl (\<lambda>a i. mint_body to (of_nat i) a) acc [unat index ..< Suc (unat tokens_total)])"
proof (induction "Suc (unat tokens_total) - unat index" arbitrary: index acc)
  case 0
  then have "\<not> index \<le> tokens_total"
    by (simp add: word_le_nat_alt)
  moreover from 0 have "[unat index ..< Suc (unat tokens_total)] = []"
    by simp
  ultimately show ?case
    by (subst mint_loop.simps) (simp del: upt_Suc)
next
  case (Suc k)
  then have le: "index \<le> tokens_total" and le': "unat index \<le> unat tokens_total"
    by (simp_all add: word_le_nat_alt)
  with Suc.prems have u: "unat (index + 1) = Suc (unat index)"
    by (intro unat_Suc_u64) simp
  have k: "k = Suc (unat tokens_total) - unat (index + 1)"
    using Suc.hyps(2) u by simp
  have upt: "[unat index ..< Suc (unat tokens_total)]
      = unat index # [unat (index + 1) ..< Suc (unat tokens_total)]"
    using le' u by (simp add: upt_conv_Cons)
  show ?case
    using le Suc.hyps(1) [OF k Suc.prems, of "mint_body to index acc"]
    by (subst mint_loop.simps) (simp add: upt del: upt_Suc)
qed


lemma mint_body_eq:
  "mint_body to i (s, ev) =
     (s\<lparr>tokens := (tokens s)(toString i \<mapsto> to),
        tokensOf := (tokensOf s)(to \<mapsto> tokensOf_get s to @ [toString i])\<rparr>,
      ev @ [(mint_event to (toString i), [to])])"
  by (simp add: mint_body_def Let_def tokensOf_get_def)

lemma mint_fold_frame:
  "foldl (\<lambda>a i. mint_body to (of_nat i) a) (s, ev) is = (s1, ev1) \<Longrightarrow>
   balances s1 = balances s \<and> supply_obj s1 = supply_obj s \<and> approvals s1 = approvals s
   \<and> operators s1 = operators s \<and> config s1 = config s \<and> manaCost s1 = manaCost s"
  by (induction "is" arbitrary: s ev) (auto simp: mint_body_eq)

lemma mint_fold_tokensOf:
  "foldl (\<lambda>a i. mint_body to (of_nat i) a) (s, ev) is = (s1, ev1) \<Longrightarrow>
   tokensOf_get s1 to = tokensOf_get s to @ map (\<lambda>i. toString (of_nat i)) is
   \<and> (\<forall>a. a \<noteq> to \<longrightarrow> tokensOf s1 a = tokensOf s a)"
proof (induction "is" arbitrary: s ev)
  case Nil
  then show ?case by simp
next
  case (Cons i "is")
  from Cons.prems Cons.IH [of "s\<lparr>tokens := (tokens s)(toString (of_nat i) \<mapsto> to),
        tokensOf := (tokensOf s)(to \<mapsto> tokensOf_get s to @ [toString (of_nat i)])\<rparr>"
       "ev @ [(mint_event to (toString (of_nat i)), [to])]"]
  show ?case
    by (simp add: mint_body_eq tokensOf_get_def)
qed

lemma mint_fold_events:
  "foldl (\<lambda>a i. mint_body to (of_nat i) a) (s, ev) is = (s1, ev1) \<Longrightarrow>
   ev1 = ev @ map (\<lambda>i. (mint_event to (toString (of_nat i)), [to])) is"
proof (induction "is" arbitrary: s ev)
  case Nil
  then show ?case by simp
next
  case (Cons i "is")
  from Cons.prems Cons.IH [of "s\<lparr>tokens := (tokens s)(toString (of_nat i) \<mapsto> to),
        tokensOf := (tokensOf s)(to \<mapsto> tokensOf_get s to @ [toString (of_nat i)])\<rparr>"
       "ev @ [(mint_event to (toString (of_nat i)), [to])]"]
  show ?case
    by (simp add: mint_body_eq)
qed

lemma mint_fold_tokens:
  "foldl (\<lambda>a i. mint_body to (of_nat i) a) (s, ev) is = (s1, ev1) \<Longrightarrow>
   tokens s1 t = (if t \<in> (\<lambda>i. toString (of_nat i)) ` set is then Some to else tokens s t)"
proof (induction "is" arbitrary: s ev)
  case Nil
  then show ?case by simp
next
  case (Cons i "is")
  from Cons.prems Cons.IH [of "s\<lparr>tokens := (tokens s)(toString (of_nat i) \<mapsto> to),
        tokensOf := (tokensOf s)(to \<mapsto> tokensOf_get s to @ [toString (of_nat i)])\<rparr>"
       "ev @ [(mint_event to (toString (of_nat i)), [to])]"]
  show ?case
    by (auto simp: mint_body_eq)
qed


lemma safe_mul_unat:
  "safe_mul a b = Inr c \<Longrightarrow> unat c = unat a * unat b"
  by (auto simp: safe_mul_def unat_word_ariths split: if_splits)

lemma safe_div_unat:
  "safe_div a b = Inr c \<Longrightarrow> b \<noteq> 0 \<and> unat c = unat a div unat b"
  by (auto simp: safe_div_def unat_div split: if_splits)

lemma safe_sub_unat:
  "safe_sub a b = Inr c \<Longrightarrow> unat b \<le> unat a \<and> unat c = unat a - unat b"
  by (auto simp: safe_sub_def word_le_nat_alt unat_sub split: if_splits)

lemma consume_loop_rounds:
  "i \<le> loops \<Longrightarrow> consume_loop i loops compute rounds = rounds + (unat loops - unat i)"
proof (induction i loops compute rounds rule: consume_loop.induct)
  case (1 i loops compute rounds)
  show ?case
  proof (cases "i < loops")
    case True
    then have less: "unat i < unat loops"
      by (simp add: word_less_nat_alt)
    with unat_u64_less [of loops] have u: "unat (i + 1) = Suc (unat i)"
      by (intro unat_Suc_u64) simp
    with less have "i + 1 \<le> loops"
      by (simp add: word_le_nat_alt)
    with "1.IH" [OF True] u less True show ?thesis
      by (subst consume_loop.simps) simp
  next
    case False
    with "1.prems" have "i = loops" by simp
    then show ?thesis
      by (subst consume_loop.simps) simp
  qed
qed

lemma consumeMana_Inr:
  "consumeMana manaToConsume computeCost = Inr rounds \<Longrightarrow>
   computeCost \<noteq> 0 \<and> rounds = (unat manaToConsume div unat computeCost) div 14"
  by (auto simp: consumeMana_def and_then_eq_Inr consume_loop_rounds dest!: safe_div_unat)

lemma remainingManaToConsume_Inr:
  assumes "remainingManaToConsume e n s = Inr residual"
  shows "unat residual
     = unat (manaCost_get s) * unat n
       - (1123019 * unat (compute_bandwidth_cost e) + 282 * unat (network_bandwidth_cost e)
          + 66 * unat (disk_storage_cost e))"
proof -
  from assms obtain computePart networkPart partial_sum diskPart manaConsumed total where
    1: "safe_mul 1123019 (compute_bandwidth_cost e) = Inr computePart" and
    2: "safe_mul 282 (network_bandwidth_cost e) = Inr networkPart" and
    3: "safe_add computePart networkPart = Inr partial_sum" and
    4: "safe_mul 66 (disk_storage_cost e) = Inr diskPart" and
    5: "safe_add partial_sum diskPart = Inr manaConsumed" and
    6: "safe_mul (manaCost_get s) n = Inr total" and
    7: "residual = (if total > manaConsumed then total - manaConsumed else 0)"
    by (auto simp: remainingManaToConsume_def and_then_eq_Inr)
  have c: "unat manaConsumed = 1123019 * unat (compute_bandwidth_cost e)
      + 282 * unat (network_bandwidth_cost e) + 66 * unat (disk_storage_cost e)"
    using safe_mul_unat [OF 1] safe_mul_unat [OF 2] safe_add_unat [OF 3]
      safe_mul_unat [OF 4] safe_add_unat [OF 5] by simp
  have t: "unat total = unat (manaCost_get s) * unat n"
    using safe_mul_unat [OF 6] .
  show ?thesis
  proof (cases "total > manaConsumed")
    case True
    then have "manaConsumed \<le> total" by simp
    from unat_sub [OF this] True have "unat residual = unat total - unat manaConsumed"
      using 7 by simp
    then show ?thesis by (simp add: c t)
  next
    case False
    then have "unat total \<le> unat manaConsumed"
      by (simp add: word_less_nat_alt)
    with False 7 show ?thesis by (simp add: c t)
  qed
qed

lemma mint_finish_Inr:
  assumes "mint_finish e to n bal spl (s1, ev1) = Inr (s', events, rounds)"
  shows "unat bal + unat n \<le> 10000000 \<and> unat spl + unat n < 2 ^ 64
     \<and> s' = s1\<lparr>balances := (balances s1)(to \<mapsto> bal + n), supply_obj := Some (spl + n)\<rparr>
     \<and> events = ev1
     \<and> (\<exists>residual. remainingManaToConsume e n s' = Inr residual
          \<and> consumeMana residual (compute_bandwidth_cost e) = Inr rounds)"
proof -
  from assms obtain bal' spl' residual where
    1: "safe_add bal n = Inr bal'" and
    2: "bal' \<le> MAX_SUPPLY" and
    3: "safe_add spl n = Inr spl'" and
    4: "remainingManaToConsume e n
          (s1\<lparr>balances := (balances s1)(to \<mapsto> bal'), supply_obj := Some spl'\<rparr>) = Inr residual" and
    5: "consumeMana residual (compute_bandwidth_cost e) = Inr rounds" and
    6: "s' = s1\<lparr>balances := (balances s1)(to \<mapsto> bal'), supply_obj := Some spl'\<rparr>" and
    7: "events = ev1"
    by (auto simp: mint_finish_def and_then_eq_Inr Let_def)
  from 2 have "unat bal' \<le> 10000000"
    by (simp add: word_le_nat_alt unat_MAX_SUPPLY)
  with safe_add_unat [OF 1] have "unat bal + unat n \<le> 10000000" by simp
  moreover from 1 have "bal' = bal + n" by (simp add: safe_add_eq_Inr)
  moreover from 3 have "spl' = spl + n" "unat spl + unat n < 2 ^ 64"
    by (simp_all add: safe_add_eq_Inr)
  ultimately show ?thesis
    using 4 5 6 7 by auto
qed

lemma mint_Inr:
  assumes "mint e to n s = Some (Inr (s', events, rounds))"
  shows "n \<le> 10 \<and> 0 < unat (supply_get s) + unat n
     \<and> unat (supply_get s) + unat n \<le> 10000000
     \<and> mint_finish e to n (balances_get s to) (supply_get s)
          (foldl (\<lambda>a i. mint_body to (of_nat i) a) (s, [])
             [Suc (unat (supply_get s)) ..< Suc (unat (supply_get s) + unat n)])
        = Inr (s', events, rounds)"
proof -
  from assms obtain tokens_total where
    1: "safe_add (supply_get s) n = Inr tokens_total"
    by (auto simp: mint_def Let_def split: sum.splits)
  from assms 1 have 2: "n \<le> 10" and 3: "0 < tokens_total" and 4: "tokens_total \<le> MAX_SUPPLY"
    by (auto simp: mint_def Let_def split: if_splits)
  have t: "unat tokens_total = unat (supply_get s) + unat n"
    using safe_add_unat [OF 1] .
  from 4 have le: "unat (supply_get s) + unat n \<le> 10000000"
    by (simp add: word_le_nat_alt unat_MAX_SUPPLY t)
  from 3 have pos: "0 < unat (supply_get s) + unat n"
    by (simp add: word_less_nat_alt t)
  from le have start: "safe_add (supply_get s) 1 = Inr (supply_get s + 1)"
    and ustart: "unat (supply_get s + 1) = Suc (unat (supply_get s))"
    by (simp_all add: safe_add_def unat_Suc_u64)
  from le t have "unat tokens_total < 2 ^ 64 - 1" by simp
  from mint_loop_eq [OF this] have loop: "mint_loop to (supply_get s + 1) tokens_total (s, [])
     = Some (foldl (\<lambda>a i. mint_body to (of_nat i) a) (s, [])
          [Suc (unat (supply_get s)) ..< Suc (unat (supply_get s) + unat n)])"
    by (simp add: ustart t del: upt_Suc)
  from assms show ?thesis
    using 2 3 4 le pos by (simp add: mint_def Let_def 1 start loop del: upt_Suc)
qed

lemma mint_total: "mint e to n s \<noteq> None"
proof (cases "safe_add (supply_get s) n")
  case (Inl err)
  then show ?thesis by (simp add: mint_def Let_def)
next
  case (Inr tokens_total)
  show ?thesis
  proof (cases "tokens_total \<le> MAX_SUPPLY")
    case True
    then have "unat tokens_total < 2 ^ 64 - 1"
      by (simp add: word_le_nat_alt unat_MAX_SUPPLY)
    from mint_loop_eq [OF this] show ?thesis
      using Inr by (simp add: mint_def Let_def split: sum.splits)
  next
    case False
    with Inr show ?thesis by (simp add: mint_def Let_def)
  qed
qed

subsection \<open>burn\<close>

text \<open>
  C9. \<open>burn\<close> succeeds on every argument and every storage, returns the empty
  acknowledgment, emits no event and leaves the whole storage as it was.
\<close>

theorem burn_noop:
  "burn token_id s = Inr (s, []) \<and> state_after s (burn token_id s) = s"
  by (simp add: burn_def)

subsection \<open>set\_royalties\<close>

text \<open>The loop adds the amounts with \<^verbatim>\<open>SafeMath.add\<close> and collects the addresses.\<close>

lemma royalties_loop_eq:
  "royalties_loop value t imp =
     (if unat t + sum_list (map (\<lambda>r. unat (amount r)) value) < 2 ^ 64
      then Inr (t + of_nat (sum_list (map (\<lambda>r. unat (amount r)) value)),
                imp @ map address value)
      else Inl SafeMath_add)"
proof (induction "value" arbitrary: t imp)
  case Nil
  have "unat t < 2 ^ 64" using unsigned_less [of t] by simp
  then show ?case by simp
next
  case (Cons r rs)
  show ?case
  proof (cases "unat t + unat (amount r) < 2 ^ 64")
    case True
    then have u: "unat (t + amount r) = unat t + unat (amount r)"
      by (simp add: unat_word_ariths)
    show ?thesis
      using True by (simp add: safe_add_def Cons.IH u add.assoc)
  next
    case False
    then show ?thesis by (simp add: safe_add_def)
  qed
qed

text \<open>
  C7. When the caller holds the authority of the configured owner: a schedule whose
  amounts sum to 10001 is refused and the stored schedule stays; a schedule whose amounts
  sum to exactly 10000 is accepted and becomes the stored schedule.
\<close>

theorem set_royalties_boundary:
  assumes "check_authority e (owner (config_get e s))"
  shows "(sum_list (map (\<lambda>r. unat (amount r)) value) = 10001 \<longrightarrow>
           set_royalties e value s
             = Inl (Require reversion ''MarketplaceV1.execute: ROYALTY_EXCEEDED_MAX'')
           \<and> config (state_after s (set_royalties e value s)) = config s
           \<and> royalties_query e (state_after s (set_royalties e value s)) = royalties_query e s)
       \<and> (sum_list (map (\<lambda>r. unat (amount r)) value) = 10000 \<longrightarrow>
           set_royalties e value s
             = Inr (s\<lparr>config := Some ((config_get e s)\<lparr>royalties := value\<rparr>)\<rparr>,
                    [(royalties_event value, map address value)])
           \<and> royalties_query e (state_after s (set_royalties e value s)) = value)"
  using assms
  by (simp add: set_royalties_def require_authority_def royalties_loop_eq Let_def
      royalties_query_def config_get_def)

theorem set_royalties_boundary_witness:
  "check_authority (host alice) (owner (config_get (host alice) init_state))
   \<and> sum_list (map (\<lambda>r. unat (amount r))
        [\<lparr>address = bob, amount = 6000\<rparr>, \<lparr>address = carol, amount = 4001\<rparr>]) = 10001
   \<and> set_royalties (host alice)
        [\<lparr>address = bob, amount = 6000\<rparr>, \<lparr>address = carol, amount = 4001\<rparr>] init_state
       = Inl (Require reversion ''MarketplaceV1.execute: ROYALTY_EXCEEDED_MAX'')
   \<and> sum_list (map (\<lambda>r. unat (amount r))
        [\<lparr>address = bob, amount = 6000\<rparr>, \<lparr>address = carol, amount = 4000\<rparr>]) = 10000
   \<and> royalties_query (host alice) (state_after init_state (set_royalties (host alice)
        [\<lparr>address = bob, amount = 6000\<rparr>, \<lparr>address = carol, amount = 4000\<rparr>] init_state))
       = [\<lparr>address = bob, amount = 6000\<rparr>, \<lparr>address = carol, amount = 4000\<rparr>]"
proof -
  have auth: "check_authority (host alice) (owner (config_get (host alice) init_state))"
    by (simp add: host_def config_get_def init_state_def alice_def)
  show ?thesis
    using auth
      set_royalties_boundary [OF auth,
        of "[\<lparr>address = bob, amount = 6000\<rparr>, \<lparr>address = carol, amount = 4001\<rparr>]"]
      set_royalties_boundary [OF auth,
        of "[\<lparr>address = bob, amount = 6000\<rparr>, \<lparr>address = carol, amount = 4000\<rparr>]"]
    by (simp add: royalties_query_def config_get_def)
qed

subsection \<open>Example runs\<close>

lemma toString_1: "toString 1 = ''1''"
  by (simp add: toString_def decimal.simps)

lemma mint_example:
  "mint (host alice) alice 1 init_state
     = Some (Inr (alice_has_one, [(mint_event alice ''1'', [alice])], 13))"
  by (simp add: mint_def Let_def init_state_def alice_has_one_def supply_get_def balances_get_def
      safe_add_def MAX_SUPPLY_def mint_loop.simps mint_body_eq toString_1 tokensOf_get_def
      mint_finish_def remainingManaToConsume_def safe_mul_def host_def manaCost_get_def
      MINT_PRICE_def consumeMana_def safe_div_def consume_loop_rounds word_le_nat_alt)

lemma reachable_alice_has_one: "reachable alice_has_one"
  using reach_mint [OF reach_init mint_example] .

lemma approve_example:
  "approve (host alice) alice bob ''1'' alice_has_one
     = Inr (alice_has_one\<lparr>approvals := [''1'' \<mapsto> bob]\<rparr>,
            [(token_approval_event alice bob ''1'', [bob, alice])])"
  by (simp add: approve_def require_authority_def host_def alice_has_one_def alice_def bob_def)

lemma transfer_approved_example:
  "transfer (host bob) alice carol ''1'' (alice_has_one\<lparr>approvals := [''1'' \<mapsto> bob]\<rparr>)
     = Inr (alice_has_one\<lparr>approvals := Map.empty, tokensOf := [alice \<mapsto> [], carol \<mapsto> [''1'']],
              tokens := [''1'' \<mapsto> carol], balances := [carol \<mapsto> 1, alice \<mapsto> 0]\<rparr>,
            [(transfer_event alice carol ''1'', [carol, alice])])"
  by (simp add: transfer_def Let_def alice_has_one_def host_def safe_sub_def safe_add_def
      balances_get_def tokensOf_get_def splice1_def alice_def bob_def carol_def isTokenApproved_def)

subsection \<open>transfer\<close>

text \<open>
  C3. When the token exists and \<open>from\<close> owns it, and the caller is not \<open>from\<close>, is not
  the account approved for the token, is not an approved operator of \<open>from\<close> and does not
  hold the authority of \<open>from\<close>, \<open>transfer\<close> fails with an authorization failure and the
  storage stays as it was.
\<close>

theorem transfer_unauthorized:
  assumes "tokens s token_id = Some frm"
    and "caller e \<noteq> frm"
    and "approvals s token_id \<noteq> Some (caller e)"
    and "\<not> is_approved_for_all e s frm (caller e)"
    and "\<not> check_authority e frm"
  shows "transfer e frm to token_id s
           = Inl (Require authorization_failure ''from has not authorized transfer'')
         \<and> kind_of_error (Require authorization_failure ''from has not authorized transfer'')
             = Some AuthorizationError
         \<and> state_after s (transfer e frm to token_id s) = s"
proof -
  have "\<not> isTokenApproved e frm token_id frm s"
    using assms
    by (auto simp: isTokenApproved_def is_approved_for_all_def Let_def split: option.splits)
  then have "transfer e frm to token_id s
           = Inl (Require authorization_failure ''from has not authorized transfer'')"
    using assms by (simp add: transfer_def)
  then show ?thesis by simp
qed

theorem transfer_unauthorized_witness:
  "tokens alice_has_one ''1'' = Some alice
   \<and> caller (host bob) \<noteq> alice
   \<and> approvals alice_has_one ''1'' \<noteq> Some (caller (host bob))
   \<and> \<not> is_approved_for_all (host bob) alice_has_one alice (caller (host bob))
   \<and> \<not> check_authority (host bob) alice
   \<and> transfer (host bob) alice carol ''1'' alice_has_one
       = Inl (Require authorization_failure ''from has not authorized transfer'')
   \<and> state_after alice_has_one (transfer (host bob) alice carol ''1'' alice_has_one)
       = alice_has_one"
proof -
  have 1: "tokens alice_has_one ''1'' = Some alice"
    by (simp add: alice_has_one_def)
  have 2: "caller (host bob) \<noteq> alice"
    by (simp add: host_def alice_def bob_def)
  have 3: "approvals alice_has_one ''1'' \<noteq> Some (caller (host bob))"
    by (simp add: alice_has_one_def)
  have 4: "\<not> is_approved_for_all (host bob) alice_has_one alice (caller (host bob))"
    by (simp add: is_approved_for_all_def alice_has_one_def)
  have 5: "\<not> check_authority (host bob) alice"
    by (simp add: host_def alice_def bob_def)
  from transfer_unauthorized [OF 1 2 3 4 5, of carol] 1 2 3 4 5
  show ?thesis by simp
qed

lemma transfer_Inr_D:
  assumes "transfer e frm to token_id s = Inr (s', events)"
  shows "approvals s' = (approvals s)(token_id := None) \<and> tokens s' = (tokens s)(token_id \<mapsto> to)"
  using assms
  by (auto simp: transfer_def Let_def and_then_eq_Inr split: option.splits if_splits)

lemma approve_Inr_D:
  assumes "approve e approver to token_id s = Inr (s', events)"
  shows "s' = s\<lparr>approvals := (approvals s)(token_id \<mapsto> to)\<rparr>"
  using assms
  by (auto simp: approve_def Let_def and_then_eq_Inr split: option.splits if_splits)

text \<open>
  C4. After a successful \<open>transfer\<close> the token has no single-token approval
  (\<open>get_approved\<close> reads the empty address) and \<open>owner_of\<close> reads \<open>to\<close>. In particular:
  when \<open>A\<close> owns \<open>T\<close> and approves it to \<open>B\<close>, and \<open>B\<close> then transfers \<open>T\<close> to \<open>C\<close>, the
  approval is gone and \<open>C\<close> is the owner.
\<close>

theorem transfer_clears_approval:
  "(transfer e frm to token_id s = Inr (s', events) \<longrightarrow>
      approvals s' token_id = None \<and> get_approved s' token_id = []
      \<and> tokens s' token_id = Some to \<and> owner_of s' token_id = to)
   \<and> (tokens s0 T = Some A \<and> approve eA A B T s0 = Inr (s1, events1)
        \<and> caller eB = B \<and> transfer eB A C T s1 = Inr (s2, events2) \<longrightarrow>
      get_approved s1 T = B \<and> get_approved s2 T = [] \<and> owner_of s2 T = C)"
proof (rule conjI; rule impI)
  assume "transfer e frm to token_id s = Inr (s', events)"
  from transfer_Inr_D [OF this]
  show "approvals s' token_id = None \<and> get_approved s' token_id = []
      \<and> tokens s' token_id = Some to \<and> owner_of s' token_id = to"
    by (simp add: get_approved_def owner_of_def)
next
  assume a: "tokens s0 T = Some A \<and> approve eA A B T s0 = Inr (s1, events1)
        \<and> caller eB = B \<and> transfer eB A C T s1 = Inr (s2, events2)"
  then have "s1 = s0\<lparr>approvals := (approvals s0)(T \<mapsto> B)\<rparr>"
    using approve_Inr_D by blast
  then have 1: "get_approved s1 T = B"
    by (simp add: get_approved_def)
  from a have "approvals s2 = (approvals s1)(T := None) \<and> tokens s2 = (tokens s1)(T \<mapsto> C)"
    using transfer_Inr_D by blast
  then have 2: "get_approved s2 T = [] \<and> owner_of s2 T = C"
    by (simp add: get_approved_def owner_of_def)
  from 1 2 show "get_approved s1 T = B \<and> get_approved s2 T = [] \<and> owner_of s2 T = C"
    by simp
qed

theorem transfer_clears_approval_witness:
  "tokens alice_has_one ''1'' = Some alice
   \<and> approve (host alice) alice bob ''1'' alice_has_one
       = Inr (alice_has_one\<lparr>approvals := [''1'' \<mapsto> bob]\<rparr>,
              [(token_approval_event alice bob ''1'', [bob, alice])])
   \<and> caller (host bob) = bob
   \<and> transfer (host bob) alice carol ''1'' (alice_has_one\<lparr>approvals := [''1'' \<mapsto> bob]\<rparr>)
       = Inr (alice_has_one\<lparr>approvals := Map.empty,
                tokensOf := [alice \<mapsto> [], carol \<mapsto> [''1'']],
                tokens := [''1'' \<mapsto> carol], balances := [carol \<mapsto> 1, alice \<mapsto> 0]\<rparr>,
              [(transfer_event alice carol ''1'', [carol, alice])])
   \<and> get_approved (alice_has_one\<lparr>approvals := [''1'' \<mapsto> bob]\<rparr>) ''1'' = bob
   \<and> get_approved (alice_has_one\<lparr>approvals := Map.empty,
                tokensOf := [alice \<mapsto> [], carol \<mapsto> [''1'']],
                tokens := [''1'' \<mapsto> carol], balances := [carol \<mapsto> 1, alice \<mapsto> 0]\<rparr>) ''1'' = []
   \<and> owner_of (alice_has_one\<lparr>approvals := Map.empty,
                tokensOf := [alice \<mapsto> [], carol \<mapsto> [''1'']],
                tokens := [''1'' \<mapsto> carol], balances := [carol \<mapsto> 1, alice \<mapsto> 0]\<rparr>) ''1'' = carol"
proof -
  have 1: "tokens alice_has_one ''1'' = Some alice"
    by (simp add: alice_has_one_def)
  have 2: "caller (host bob) = bob"
    by (simp add: host_def)
  from transfer_clears_approval [of "host bob" alice carol "''1''"
      "alice_has_one\<lparr>approvals := [''1'' \<mapsto> bob]\<rparr>"
      "alice_has_one\<lparr>approvals := Map.empty,
                tokensOf := [alice \<mapsto> [], carol \<mapsto> [''1'']],
                tokens := [''1'' \<mapsto> carol], balances := [carol \<mapsto> 1, alice \<mapsto> 0]\<rparr>"
      "[(transfer_event alice carol ''1'', [carol, alice])]"
      alice_has_one "''1''" alice "host alice" bob
      "alice_has_one\<lparr>approvals := [''1'' \<mapsto> bob]\<rparr>"
      "[(token_approval_event alice bob ''1'', [bob, alice])]"
      "host bob" carol
      "alice_has_one\<lparr>approvals := Map.empty,
                tokensOf := [alice \<mapsto> [], carol \<mapsto> [''1'']],
                tokens := [''1'' \<mapsto> carol], balances := [carol \<mapsto> 1, alice \<mapsto> 0]\<rparr>"
      "[(transfer_event alice carol ''1'', [carol, alice])]"]
    1 2 approve_example transfer_approved_example
  show ?thesis by simp
qed

subsection \<open>The effect of mint\<close>

lemma toString_of_nat: "i < 2 ^ 64 \<Longrightarrow> toString (of_nat i) = decimal i"
  by (simp add: toString_def unat_of_nat)

lemma mint_ids_decimal:
  "u + k \<le> 10000000 \<Longrightarrow>
   map (\<lambda>i. toString (of_nat i)) [Suc u ..< Suc (u + k)] = map decimal [Suc u ..< Suc (u + k)]"
proof (rule map_cong [OF refl])
  fix i assume "u + k \<le> 10000000" and "i \<in> set [Suc u ..< Suc (u + k)]"
  then have "i \<le> 10000000" by (simp del: upt_Suc)
  then have "i < 2 ^ 64" by simp
  then show "toString (of_nat i) = decimal i" by (rule toString_of_nat)
qed

lemma remainingManaToConsume_cong:
  "manaCost s' = manaCost s \<Longrightarrow> remainingManaToConsume e n s' = remainingManaToConsume e n s"
  by (simp add: remainingManaToConsume_def manaCost_get_def)

text \<open>A successful mint, field by field. The new ids are the decimal strings of the
  numbers from \<open>supply + 1\<close> to \<open>supply + n\<close>.\<close>

lemma mint_effect:
  assumes "mint e to n s = Some (Inr (s', events, rounds))"
  defines "ids \<equiv> map decimal [Suc (unat (supply_get s)) ..< Suc (unat (supply_get s) + unat n)]"
  shows "n \<le> 10" and "0 < unat (supply_get s) + unat n"
    and "unat (supply_get s) + unat n \<le> 10000000"
    and "unat (balances_get s to) + unat n \<le> 10000000"
    and "tokensOf_get s' to = tokensOf_get s to @ ids"
    and "\<And>a. a \<noteq> to \<Longrightarrow> tokensOf s' a = tokensOf s a"
    and "\<And>t. tokens s' t = (if t \<in> set ids then Some to else tokens s t)"
    and "events = map (\<lambda>id. (mint_event to id, [to])) ids"
    and "balances s' = (balances s)(to \<mapsto> balances_get s to + n)"
    and "supply_obj s' = Some (supply_get s + n)"
    and "approvals s' = approvals s" and "operators s' = operators s"
    and "config s' = config s" and "manaCost s' = manaCost s"
    and "\<exists>residual. remainingManaToConsume e n s = Inr residual
           \<and> consumeMana residual (compute_bandwidth_cost e) = Inr rounds"
proof -
  let ?is = "[Suc (unat (supply_get s)) ..< Suc (unat (supply_get s) + unat n)]"
  obtain s1 ev1 where fold: "foldl (\<lambda>a i. mint_body to (of_nat i) a) (s, []) ?is = (s1, ev1)"
    by (cases "foldl (\<lambda>a i. mint_body to (of_nat i) a) (s, []) ?is") blast
  from mint_Inr [OF assms(1)] fold have
    a: "n \<le> 10" and b: "0 < unat (supply_get s) + unat n"
    and c: "unat (supply_get s) + unat n \<le> 10000000"
    and fin: "mint_finish e to n (balances_get s to) (supply_get s) (s1, ev1) = Inr (s', events, rounds)"
    by simp_all
  from mint_finish_Inr [OF fin] obtain residual where
    d: "unat (balances_get s to) + unat n \<le> 10000000"
    and s': "s' = s1\<lparr>balances := (balances s1)(to \<mapsto> balances_get s to + n),
                    supply_obj := Some (supply_get s + n)\<rparr>"
    and ev: "events = ev1"
    and mana: "remainingManaToConsume e n s' = Inr residual"
      "consumeMana residual (compute_bandwidth_cost e) = Inr rounds"
    by blast
  have idsq: "map (\<lambda>i. toString (of_nat i)) ?is = ids"
    unfolding ids_def using c by (rule mint_ids_decimal)
  note frame = mint_fold_frame [OF fold]
  show "n \<le> 10" by fact
  show "0 < unat (supply_get s) + unat n" by fact
  show "unat (supply_get s) + unat n \<le> 10000000" by fact
  show "unat (balances_get s to) + unat n \<le> 10000000" by fact
  show "tokensOf_get s' to = tokensOf_get s to @ ids"
    using mint_fold_tokensOf [OF fold] idsq by (simp add: s' tokensOf_get_def)
  show "\<And>a. a \<noteq> to \<Longrightarrow> tokensOf s' a = tokensOf s a"
    using mint_fold_tokensOf [OF fold] by (simp add: s')
  show "\<And>t. tokens s' t = (if t \<in> set ids then Some to else tokens s t)"
    using mint_fold_tokens [OF fold] idsq [symmetric] by (simp add: s')
  show "events = map (\<lambda>id. (mint_event to id, [to])) ids"
    using mint_fold_events [OF fold] idsq [symmetric] by (simp add: ev comp_def)
  show "balances s' = (balances s)(to \<mapsto> balances_get s to + n)"
    using frame by (simp add: s')
  show "supply_obj s' = Some (supply_get s + n)" by (simp add: s')
  show "approvals s' = approvals s" using frame by (simp add: s')
  show "operators s' = operators s" using frame by (simp add: s')
  show "config s' = config s" using frame by (simp add: s')
  show m: "manaCost s' = manaCost s" using frame by (simp add: s')
  show "\<exists>residual. remainingManaToConsume e n s = Inr residual
           \<and> consumeMana residual (compute_bandwidth_cost e) = Inr rounds"
    using mana remainingManaToConsume_cong [OF m, of e n] by auto
qed


subsection \<open>mint: the new ids\<close>

lemma upt_three: "[Suc u ..< Suc (u + 3)] = [u + 1, u + 2, u + 3]"
  by (simp add: upt_conv_Cons del: upt_Suc)

text \<open>
  C5. When \<open>mint\<close> of 3 tokens to \<open>X\<close> succeeds in a storage with supply \<open>s\<close>, the new
  ids are the decimal strings of \<open>s + 1\<close>, \<open>s + 2\<close>, \<open>s + 3\<close>: one mint event for each,
  in this order, each token owned by \<open>X\<close>; \<open>tokens_of X\<close> is the list before with the
  three ids appended in this order, and \<open>balance_of X\<close> has grown by 3.
\<close>

theorem mint_three_round_trip:
  assumes "mint e X 3 s = Some (Inr (s', events, rounds))"
  shows "tokens_of s' X = tokens_of s X
             @ [decimal (unat (total_supply s) + 1), decimal (unat (total_supply s) + 2),
                decimal (unat (total_supply s) + 3)]
     \<and> events = [(mint_event X (decimal (unat (total_supply s) + 1)), [X]),
                 (mint_event X (decimal (unat (total_supply s) + 2)), [X]),
                 (mint_event X (decimal (unat (total_supply s) + 3)), [X])]
     \<and> owner_of s' (decimal (unat (total_supply s) + 1)) = X
     \<and> owner_of s' (decimal (unat (total_supply s) + 2)) = X
     \<and> owner_of s' (decimal (unat (total_supply s) + 3)) = X
     \<and> balance_of s' X = balance_of s X + 3
     \<and> unat (balance_of s' X) = unat (balance_of s X) + 3"
proof -
  note eff = mint_effect [OF assms]
  have ids: "map decimal [Suc (unat (supply_get s)) ..< Suc (unat (supply_get s) + unat (3 :: u64))]
      = [decimal (unat (supply_get s) + 1), decimal (unat (supply_get s) + 2),
         decimal (unat (supply_get s) + 3)]"
  proof -
    have "unat (3 :: u64) = 3" by simp
    then show ?thesis by (simp only: upt_three list.map)
  qed
  have bal: "balances_get s' X = balances_get s X + 3"
    using eff(9) by (simp add: balances_get_def)
  from eff(4) have "unat (balances_get s X) + unat (3 :: u64) < 2 ^ 64"
    by simp
  then have ubal: "unat (balances_get s X + 3) = unat (balances_get s X) + 3"
    by (simp add: unat_word_ariths)
  show ?thesis
    using eff(5) eff(7) eff(8) bal ubal
    by (simp only: ids tokens_of_def total_supply_def owner_of_def balance_of_def) simp
qed

lemma decimal_2: "decimal 2 = ''2''"
  by (simp add: decimal.simps)

lemma decimal_3: "decimal 3 = ''3''"
  by (simp add: decimal.simps)

lemma mint_three_example:
  "mint (host alice) alice 3 init_state
     = Some (Inr (\<lparr> supply_obj = Some 3,
                    tokens = [''1'' \<mapsto> alice, ''2'' \<mapsto> alice, ''3'' \<mapsto> alice],
                    balances = [alice \<mapsto> 3],
                    approvals = Map.empty, operators = Map.empty,
                    tokensOf = [alice \<mapsto> [''1'', ''2'', ''3'']],
                    config = None, manaCost = None \<rparr>,
                  [(mint_event alice ''1'', [alice]), (mint_event alice ''2'', [alice]),
                   (mint_event alice ''3'', [alice])],
                  160526))"
  by (simp add: mint_def Let_def init_state_def supply_get_def balances_get_def
      safe_add_def MAX_SUPPLY_def mint_loop.simps mint_body_eq toString_def decimal.simps
      tokensOf_get_def
      mint_finish_def remainingManaToConsume_def safe_mul_def host_def manaCost_get_def
      MINT_PRICE_def consumeMana_def safe_div_def consume_loop_rounds word_le_nat_alt)

theorem mint_three_round_trip_witness:
  "mint (host alice) alice 3 init_state
     = Some (Inr (\<lparr> supply_obj = Some 3,
                    tokens = [''1'' \<mapsto> alice, ''2'' \<mapsto> alice, ''3'' \<mapsto> alice],
                    balances = [alice \<mapsto> 3],
                    approvals = Map.empty, operators = Map.empty,
                    tokensOf = [alice \<mapsto> [''1'', ''2'', ''3'']],
                    config = None, manaCost = None \<rparr>,
                  [(mint_event alice ''1'', [alice]), (mint_event alice ''2'', [alice]),
                   (mint_event alice ''3'', [alice])],
                  160526))
   \<and> tokens_of \<lparr> supply_obj = Some 3,
                    tokens = [''1'' \<mapsto> alice, ''2'' \<mapsto> alice, ''3'' \<mapsto> alice],
                    balances = [alice \<mapsto> 3],
                    approvals = Map.empty, operators = Map.empty,
                    tokensOf = [alice \<mapsto> [''1'', ''2'', ''3'']],
                    config = None, manaCost = None \<rparr> alice
       = tokens_of init_state alice @ [''1'', ''2'', ''3'']
   \<and> balance_of \<lparr> supply_obj = Some 3,
                    tokens = [''1'' \<mapsto> alice, ''2'' \<mapsto> alice, ''3'' \<mapsto> alice],
                    balances = [alice \<mapsto> 3],
                    approvals = Map.empty, operators = Map.empty,
                    tokensOf = [alice \<mapsto> [''1'', ''2'', ''3'']],
                    config = None, manaCost = None \<rparr> alice
       = balance_of init_state alice + 3"
proof -
  have "unat (total_supply init_state) = 0"
    by (simp add: total_supply_def supply_get_def init_state_def)
  with mint_three_round_trip [OF mint_three_example] mint_three_example
  show ?thesis
    by (simp add: decimal.simps)
qed

subsection \<open>mint: the mana meter\<close>

text \<open>
  C8. After a successful \<open>mint\<close> with price \<open>p\<close> and unit costs \<open>c\<close>, \<open>n\<close>, \<open>d\<close>, the
  residual mana is \<open>max(0, p * count - (1123019 * c + 282 * n + 66 * d))\<close> as an integer,
  with no wrap-around, and the busy loop runs \<open>(residual div c) div 14\<close> rounds.
\<close>

theorem mint_mana_metering:
  assumes "mint e to n s = Some (Inr (s', events, rounds))"
  shows "\<exists>residual.
           remainingManaToConsume e n s = Inr residual
           \<and> uint residual
               = spec_residual (uint (manaCost_get s)) (uint n) (uint (compute_bandwidth_cost e))
                   (uint (network_bandwidth_cost e)) (uint (disk_storage_cost e))
           \<and> int rounds = spec_work_units (uint residual) (uint (compute_bandwidth_cost e))"
proof -
  from mint_effect(15) [OF assms] obtain residual where
    r: "remainingManaToConsume e n s = Inr residual"
    and c: "consumeMana residual (compute_bandwidth_cost e) = Inr rounds"
    by blast
  define total where "total = unat (manaCost_get s) * unat n"
  define attributed where "attributed = 1123019 * unat (compute_bandwidth_cost e)
      + 282 * unat (network_bandwidth_cost e) + 66 * unat (disk_storage_cost e)"
  have "unat residual = total - attributed"
    unfolding total_def attributed_def by (rule remainingManaToConsume_Inr [OF r])
  then have "int (unat residual) = max 0 (int total - int attributed)"
    by (simp add: max_def)
  moreover have "int total = uint (manaCost_get s) * uint n"
    by (simp add: total_def)
  moreover have "int attributed = 1123019 * uint (compute_bandwidth_cost e)
      + 282 * uint (network_bandwidth_cost e) + 66 * uint (disk_storage_cost e)"
    by (simp add: attributed_def)
  ultimately have 1: "uint residual
      = spec_residual (uint (manaCost_get s)) (uint n) (uint (compute_bandwidth_cost e))
          (uint (network_bandwidth_cost e)) (uint (disk_storage_cost e))"
    by (simp add: spec_residual_def)
  from consumeMana_Inr [OF c]
  have "int rounds = (int (unat residual) div int (unat (compute_bandwidth_cost e))) div 14"
    by (simp add: zdiv_int)
  then have 2: "int rounds = spec_work_units (uint residual) (uint (compute_bandwidth_cost e))"
    by (simp add: spec_work_units_def)
  from r 1 2 show ?thesis by blast
qed

theorem mint_mana_metering_witness:
  "mint (host alice) alice 1 init_state
     = Some (Inr (alice_has_one, [(mint_event alice ''1'', [alice])], 13))
   \<and> remainingManaToConsume (host alice) 1 init_state = Inr 16509
   \<and> spec_residual 100000000 1 89 100 100 = 16509
   \<and> spec_work_units 16509 89 = 13"
proof -
  have r: "remainingManaToConsume (host alice) 1 init_state = Inr 16509"
    by (simp add: remainingManaToConsume_def safe_mul_def safe_add_def host_def manaCost_get_def
        init_state_def MINT_PRICE_def)
  from mint_mana_metering [OF mint_example] r mint_example
  show ?thesis
    by (simp add: host_def manaCost_get_def init_state_def MINT_PRICE_def)
qed

subsection \<open>The effect of transfer\<close>

lemma indexOf_nonneg_iff: "0 \<le> indexOf xs x \<longleftrightarrow> x \<in> set xs"
  by (induction xs) (auto simp: Let_def)

lemma splice1_indexOf: "x \<in> set xs \<Longrightarrow> splice1 xs (nat (indexOf xs x)) = remove1 x xs"
proof (induction xs)
  case Nil
  then show ?case by simp
next
  case (Cons y ys)
  show ?case
  proof (cases "y = x")
    case True
    then show ?thesis by (simp add: splice1_def)
  next
    case False
    with Cons.prems have mem: "x \<in> set ys" by simp
    then have nonneg: "0 \<le> indexOf ys x" by (simp add: indexOf_nonneg_iff)
    then have "nat (indexOf ys x + 1) = Suc (nat (indexOf ys x))" by simp
    with False nonneg Cons.IH [OF mem] show ?thesis
      by (simp add: splice1_def Let_def)
  qed
qed

text \<open>A successful transfer, in one equation. With \<open>frm = to\<close> the second write of the
  token list and the second write of the balance each replace the first.\<close>

lemma transfer_effect:
  assumes "transfer e frm to token_id s = Inr (s', events)"
  shows "tokens s token_id = Some frm"
    and "caller e = frm \<or> isTokenApproved e frm token_id frm s"
    and "1 \<le> unat (balances_get s frm)"
    and "unat (balances_get s to) + 1 < 2 ^ 64"
    and "token_id \<in> set (tokensOf_get s frm)"
    and "s' = s\<lparr>approvals := (approvals s)(token_id := None),
                tokensOf := (tokensOf s)(frm \<mapsto> remove1 token_id (tokensOf_get s frm),
                                          to \<mapsto> tokensOf_get s to @ [token_id]),
                tokens := (tokens s)(token_id \<mapsto> to),
                balances := (balances s)(to \<mapsto> balances_get s to + 1,
                                          frm \<mapsto> balances_get s frm - 1)\<rparr>"
    and "events = [(transfer_event frm to token_id, [to, frm])]"
proof -
  from assms obtain token_owner where tok: "tokens s token_id = Some token_owner"
    by (auto simp: transfer_def split: option.splits)
  from assms tok have own: "token_owner = frm"
    by (auto simp: transfer_def and_then_eq_Inr)
  from assms tok own have auth: "caller e = frm \<or> isTokenApproved e frm token_id frm s"
    by (auto simp: transfer_def and_then_eq_Inr split: if_splits)
  let ?s1 = "s\<lparr>approvals := (approvals s)(token_id := None)\<rparr>"
  have get1: "balances_get ?s1 = balances_get s" "tokensOf_get ?s1 = tokensOf_get s"
    by (simp_all add: balances_get_def tokensOf_get_def fun_eq_iff)
  from assms tok own obtain balance_from balance_to where
    sub: "safe_sub (balances_get s frm) 1 = Inr balance_from"
    and add: "safe_add (balances_get s to) 1 = Inr balance_to"
    and idx: "0 \<le> indexOf (tokensOf_get s frm) token_id"
    and s': "s' = s\<lparr>approvals := (approvals s)(token_id := None),
                tokensOf := (tokensOf s)(frm \<mapsto> splice1 (tokensOf_get s frm)
                                                     (nat (indexOf (tokensOf_get s frm) token_id)),
                                          to \<mapsto> tokensOf_get s to @ [token_id]),
                tokens := (tokens s)(token_id \<mapsto> to),
                balances := (balances s)(to \<mapsto> balance_to, frm \<mapsto> balance_from)\<rparr>"
    and ev: "events = [(transfer_event frm to token_id, [to, frm])]"
    by (auto simp: transfer_def and_then_eq_Inr Let_def get1 split: if_splits)
  from idx have mem: "token_id \<in> set (tokensOf_get s frm)"
    by (simp add: indexOf_nonneg_iff)
  show "tokens s token_id = Some frm" using tok own by simp
  show "caller e = frm \<or> isTokenApproved e frm token_id frm s" by fact
  show "1 \<le> unat (balances_get s frm)" using safe_sub_unat [OF sub] by simp
  show "unat (balances_get s to) + 1 < 2 ^ 64" using add by (simp add: safe_add_eq_Inr)
  show "token_id \<in> set (tokensOf_get s frm)" by fact
  show "events = [(transfer_event frm to token_id, [to, frm])]" by fact
  from sub have "balance_from = balances_get s frm - 1"
    by (auto simp: safe_sub_def split: if_splits)
  moreover from add have "balance_to = balances_get s to + 1"
    by (simp add: safe_add_eq_Inr)
  ultimately show "s' = s\<lparr>approvals := (approvals s)(token_id := None),
                tokensOf := (tokensOf s)(frm \<mapsto> remove1 token_id (tokensOf_get s frm),
                                          to \<mapsto> tokensOf_get s to @ [token_id]),
                tokens := (tokens s)(token_id \<mapsto> to),
                balances := (balances s)(to \<mapsto> balances_get s to + 1,
                                          frm \<mapsto> balances_get s frm - 1)\<rparr>"
    using s' splice1_indexOf [OF mem] by simp
qed


subsection \<open>The bounds of a reachable storage\<close>

lemma balance_sum_update:
  assumes "finite (dom (balances s))"
  shows "balance_sum (s\<lparr>balances := (balances s)(a \<mapsto> v)\<rparr>) + unat (balances_get s a)
     = balance_sum s + unat v"
proof -
  let ?D = "dom (balances s)"
  let ?g = "\<lambda>x. unat (balances_get s x)"
  let ?g' = "\<lambda>x. unat (balances_get (s\<lparr>balances := (balances s)(a \<mapsto> v)\<rparr>) x)"
  have fin: "finite (?D - {a})" using assms by simp
  have same: "sum ?g' (?D - {a}) = sum ?g (?D - {a})"
    by (rule sum.cong) (simp_all add: balances_get_def)
  have new: "balance_sum (s\<lparr>balances := (balances s)(a \<mapsto> v)\<rparr>) = unat v + sum ?g (?D - {a})"
  proof -
    have "balance_sum (s\<lparr>balances := (balances s)(a \<mapsto> v)\<rparr>) = sum ?g' (insert a ?D)"
      by (simp add: balance_sum_def)
    also have "\<dots> = ?g' a + sum ?g' (?D - {a})"
      using assms by (rule sum.insert_remove)
    also have "\<dots> = unat v + sum ?g (?D - {a})"
      by (simp add: same) (simp add: balances_get_def)
    finally show ?thesis .
  qed
  have old: "balance_sum s = ?g a + sum ?g (?D - {a})"
  proof (cases "a \<in> ?D")
    case True
    with assms show ?thesis
      unfolding balance_sum_def by (rule sum.remove)
  next
    case False
    then have none: "balances s a = None" by auto
    then have "?g a = 0" by (simp add: balances_get_def)
    moreover from False have "?D - {a} = ?D" by simp
    ultimately show ?thesis by (simp add: balance_sum_def)
  qed
  from new old show ?thesis by simp
qed

lemma balance_le_sum:
  assumes "finite (dom (balances s))"
  shows "unat (balances_get s a) \<le> balance_sum s"
proof (cases "a \<in> dom (balances s)")
  case True
  with assms show ?thesis
    unfolding balance_sum_def by (intro member_le_sum) simp_all
next
  case False
  then have "balances s a = None" by auto
  then show ?thesis by (simp add: balances_get_def)
qed

lemma ledger_bounded_balance:
  assumes "ledger_bounded s"
  shows "unat (balances_get s a) \<le> 10000000"
proof -
  from assms have "finite (dom (balances s))"
    and "balance_sum s \<le> unat (supply_get s)" and "supply_get s \<le> MAX_SUPPLY"
    by (simp_all add: ledger_bounded_def)
  with balance_le_sum [of s a] show ?thesis
    by (simp add: word_le_nat_alt unat_MAX_SUPPLY)
qed

lemma ledger_bounded_init: "ledger_bounded init_state"
  by (simp add: ledger_bounded_def init_state_def balance_sum_def supply_get_def
      MAX_SUPPLY_def)

lemma ledger_bounded_frame:
  assumes "ledger_bounded s"
    and "balances s' = balances s" and "supply_obj s' = supply_obj s"
    and "tokens s' = tokens s" and "tokensOf s' = tokensOf s"
  shows "ledger_bounded s'"
  using assms
  by (simp add: ledger_bounded_def balance_sum_def balances_get_def supply_get_def
      tokensOf_get_def)

lemma ledger_bounded_mint:
  assumes inv: "ledger_bounded s"
    and mint: "mint e to n s = Some (Inr (s', events, rounds))"
  shows "ledger_bounded s'"
proof -
  note eff = mint_effect [OF mint]
  let ?ids = "map decimal [Suc (unat (supply_get s)) ..< Suc (unat (supply_get s) + unat n)]"
  from inv have fin: "finite (dom (balances s))"
    and sum: "balance_sum s \<le> unat (supply_get s)"
    and own: "\<And>t a. tokens s t = Some a \<Longrightarrow> t \<in> set (tokensOf_get s a)"
    by (simp_all add: ledger_bounded_def)
  have s'_bal: "balance_sum s' = balance_sum (s\<lparr>balances := (balances s)(to \<mapsto> balances_get s to + n)\<rparr>)"
    using eff(9) by (simp add: balance_sum_def balances_get_def)
  from eff(4) have "unat (balances_get s to + n) = unat (balances_get s to) + unat n"
    by (simp add: unat_word_ariths)
  with balance_sum_update [OF fin, of to "balances_get s to + n"] s'_bal
  have sum': "balance_sum s' = balance_sum s + unat n" by simp
  from eff(3) have usup: "unat (supply_get s + n) = unat (supply_get s) + unat n"
    by (simp add: unat_word_ariths)
  have sup': "supply_get s' = supply_get s + n"
    using eff(10) by (simp add: supply_get_def)
  have 1: "finite (dom (balances s'))"
    using fin eff(9) by simp
  have 2: "balance_sum s' \<le> unat (supply_get s')"
    using sum sum' sup' usup by simp
  have 3: "supply_get s' \<le> MAX_SUPPLY"
    using eff(3) sup' usup by (simp add: word_le_nat_alt unat_MAX_SUPPLY)
  have 4: "t \<in> set (tokensOf_get s' a)" if t: "tokens s' t = Some a" for t a
  proof (cases "t \<in> set ?ids")
    case True
    with t eff(7) [of t] have "a = to" by simp
    with True eff(5) show ?thesis by simp
  next
    case False
    with t eff(7) [of t] have "tokens s t = Some a" by simp
    then have old: "t \<in> set (tokensOf_get s a)" by (rule own)
    show ?thesis
    proof (cases "a = to")
      case True
      with old eff(5) show ?thesis by simp
    next
      case False
      with eff(6) [of a] old show ?thesis by (simp add: tokensOf_get_def)
    qed
  qed
  from 1 2 3 4 show ?thesis
    by (simp add: ledger_bounded_def)
qed


lemma balance_sum_cong: "balances s' = balances s \<Longrightarrow> balance_sum s' = balance_sum s"
  by (simp add: balance_sum_def balances_get_def)

lemma ledger_bounded_transfer:
  assumes inv: "ledger_bounded s"
    and transfer: "transfer e frm to token_id s = Inr (s', events)"
  shows "ledger_bounded s'"
proof -
  note eff = transfer_effect [OF transfer]
  from inv have fin: "finite (dom (balances s))"
    and sum: "balance_sum s \<le> unat (supply_get s)"
    and sup: "supply_get s \<le> MAX_SUPPLY"
    and own: "\<And>t a. tokens s t = Some a \<Longrightarrow> t \<in> set (tokensOf_get s a)"
    by (simp_all add: ledger_bounded_def)
  let ?bf = "balances_get s frm" and ?bt = "balances_get s to"
  let ?sa = "s\<lparr>balances := (balances s)(to \<mapsto> ?bt + 1)\<rparr>"
  let ?sb = "?sa\<lparr>balances := (balances ?sa)(frm \<mapsto> ?bf - 1)\<rparr>"
  have bal': "balances s' = balances ?sb"
    by (subst eff(6)) simp
  have ut: "unat (?bt + 1) = unat ?bt + 1"
    using eff(4) by (simp add: unat_word_ariths)
  have "(1 :: u64) \<le> ?bf"
    using eff(3) by (simp add: word_le_nat_alt)
  from unat_sub [OF this] have uf: "unat (?bf - 1) = unat ?bf - 1"
    by simp
  from balance_sum_update [OF fin, of to "?bt + 1"] ut
  have sa: "balance_sum ?sa = balance_sum s + 1" by simp
  have fin_a: "finite (dom (balances ?sa))" using fin by simp
  have get_a: "unat (balances_get ?sa frm) = (if frm = to then unat ?bt + 1 else unat ?bf)"
    using ut by (simp add: balances_get_def)
  from balance_sum_update [OF fin_a, of frm "?bf - 1"] uf sa get_a eff(3)
  have "balance_sum ?sb \<le> balance_sum s"
    by (simp split: if_splits)
  with balance_sum_cong [OF bal'] sum have 2: "balance_sum s' \<le> unat (supply_get s)"
    by simp
  have 1: "finite (dom (balances s'))"
    using fin by (subst eff(6)) simp
  have sup': "supply_get s' = supply_get s"
    by (subst eff(6)) (simp add: supply_get_def)
  have tok': "tokens s' = (tokens s)(token_id \<mapsto> to)"
    by (subst eff(6)) simp
  have list_to: "tokensOf_get s' to = tokensOf_get s to @ [token_id]"
    by (subst eff(6)) (simp add: tokensOf_get_def)
  have list_frm: "frm \<noteq> to \<Longrightarrow> tokensOf_get s' frm = remove1 token_id (tokensOf_get s frm)"
    by (subst eff(6)) (simp add: tokensOf_get_def)
  have list_other: "\<And>a. a \<noteq> to \<Longrightarrow> a \<noteq> frm \<Longrightarrow> tokensOf_get s' a = tokensOf_get s a"
    by (subst eff(6)) (simp add: tokensOf_get_def)
  have 4: "t \<in> set (tokensOf_get s' a)" if t: "tokens s' t = Some a" for t a
  proof (cases "t = token_id")
    case True
    with t tok' have "a = to" by simp
    with True list_to show ?thesis by simp
  next
    case False
    with t tok' have "tokens s t = Some a" by simp
    then have old: "t \<in> set (tokensOf_get s a)" by (rule own)
    consider "a = to" | "a \<noteq> to" "a = frm" | "a \<noteq> to" "a \<noteq> frm" by blast
    then show ?thesis
    proof cases
      case 1
      with old list_to show ?thesis by simp
    next
      case 2
      with old list_frm False show ?thesis by simp
    next
      case 3
      with old list_other show ?thesis by simp
    qed
  qed
  from 1 2 sup sup' 4 show ?thesis
    by (simp add: ledger_bounded_def)
qed

lemma set_approval_for_all_Inr_D:
  assumes "set_approval_for_all e approver operator approved s = Inr (s', events)"
  shows "s' = s\<lparr>operators := (operators s)
                  (get_approved_operator_key e operator approver \<mapsto> approved)\<rparr>"
  using assms
  by (auto simp: set_approval_for_all_def and_then_eq_Inr)

lemma set_royalties_Inr_D:
  assumes "set_royalties e value s = Inr (s', events)"
  shows "s' = s\<lparr>config := Some ((config_get e s)\<lparr>royalties := value\<rparr>)\<rparr>"
  using assms
  by (auto simp: set_royalties_def and_then_eq_Inr Let_def)

lemma transfer_ownership_Inr_D:
  assumes "transfer_ownership e new_owner s = Inr (s', events)"
  shows "s' = s\<lparr>config := Some ((config_get e s)\<lparr>owner := new_owner\<rparr>)\<rparr>"
  using assms
  by (auto simp: transfer_ownership_def and_then_eq_Inr Let_def)


lemma reachable_ledger_bounded: "reachable s \<Longrightarrow> ledger_bounded s"
proof (induction rule: reachable.induct)
  case reach_init
  show ?case by (rule ledger_bounded_init)
next
  case (reach_mint s e to n s' events rounds)
  then show ?case by (blast intro: ledger_bounded_mint)
next
  case (reach_transfer s e frm to token_id s' events)
  then show ?case by (blast intro: ledger_bounded_transfer)
next
  case (reach_approve s e approver to token_id s' events)
  from approve_Inr_D [OF reach_approve.hyps(2)] reach_approve.IH show ?case
    by (simp add: ledger_bounded_frame [of s])
next
  case (reach_set_approval_for_all s e approver operator approved s' events)
  from set_approval_for_all_Inr_D [OF reach_set_approval_for_all.hyps(2)]
    reach_set_approval_for_all.IH show ?case
    by (simp add: ledger_bounded_frame [of s])
next
  case (reach_burn s token_id s' events)
  then show ?case by (simp add: burn_def)
next
  case (reach_set_royalties s e "value" s' events)
  from set_royalties_Inr_D [OF reach_set_royalties.hyps(2)] reach_set_royalties.IH show ?case
    by (simp add: ledger_bounded_frame [of s])
next
  case (reach_transfer_ownership s e new_owner s' events)
  from transfer_ownership_Inr_D [OF reach_transfer_ownership.hyps(2)]
    reach_transfer_ownership.IH show ?case
    by (simp add: ledger_bounded_frame [of s])
qed

subsection \<open>The supply bound\<close>

text \<open>
  C2, amended. In every reachable storage the supply is at most \<^verbatim>\<open>MAX_SUPPLY\<close>. A mint
  that would take the supply above \<^verbatim>\<open>MAX_SUPPLY\<close> fails and leaves the storage as it
  was. The failure is a capacity failure when the count is at most 10 or when the sum of
  supply and count does not fit in 64 bits (\<^verbatim>\<open>SafeMath.add\<close> runs first); it is the
  validation failure of the count limit when the count is above 10 and the sum fits, since
  the count is tested before the ceiling. A successful mint adds exactly the count to the
  supply.
\<close>

theorem supply_bound:
  "(reachable s \<longrightarrow> 0 \<le> total_supply s \<and> total_supply s \<le> MAX_SUPPLY)
   \<and> (unat (total_supply s) + unat n > unat MAX_SUPPLY \<longrightarrow>
        (\<exists>r. mint e to n s = Some r
           \<and> (\<exists>err. r = Inl err
                \<and> kind_of_error err
                    = Some (if n \<le> 10 \<or> 2 ^ 64 \<le> unat (total_supply s) + unat n
                            then CapacityError else ValidationError))
           \<and> state_after s r = s))
   \<and> (mint e to n s = Some (Inr (s', events, rounds)) \<longrightarrow>
        total_supply s' = total_supply s + n
        \<and> unat (total_supply s') = unat (total_supply s) + unat n)"
proof (intro conjI impI)
  show "0 \<le> total_supply s" by simp
next
  assume "reachable s"
  then have "ledger_bounded s" by (rule reachable_ledger_bounded)
  then show "total_supply s \<le> MAX_SUPPLY"
    by (simp add: ledger_bounded_def total_supply_def)
next
  assume a: "unat (total_supply s) + unat n > unat MAX_SUPPLY"
  show "\<exists>r. mint e to n s = Some r
           \<and> (\<exists>err. r = Inl err
                \<and> kind_of_error err
                    = Some (if n \<le> 10 \<or> 2 ^ 64 \<le> unat (total_supply s) + unat n
                            then CapacityError else ValidationError))
           \<and> state_after s r = s"
  proof (cases "unat (supply_get s) + unat n < 2 ^ 64")
    case fits: True
    then have u: "unat (supply_get s + n) = unat (supply_get s) + unat n"
      by (simp add: unat_word_ariths)
    show ?thesis
    proof (cases "n \<le> 10")
      case True
      from a have a': "10000000 < unat (supply_get s) + unat n"
        by (simp add: total_supply_def unat_MAX_SUPPLY)
      then have "\<not> supply_get s + n \<le> MAX_SUPPLY"
        by (simp add: word_le_nat_alt u unat_MAX_SUPPLY)
      moreover from a' have "0 < unat (supply_get s + n)"
        unfolding u by linarith
      then have "0 < supply_get s + n"
        by (simp add: word_less_nat_alt)
      ultimately have "\<not> supply_get s + n \<le> MAX_SUPPLY" and "0 < supply_get s + n"
        by simp_all
      with True fits
      have "mint e to n s = Some (Inl (Require reversion ''token id out of bounds''))"
        by (simp add: mint_def Let_def safe_add_def)
      with True show ?thesis by simp
    next
      case False
      with fits
      have "mint e to n s
          = Some (Inl (Require reversion ''exceeds the limit of tokens to mint of 10''))"
        by (simp add: mint_def Let_def safe_add_def)
      with False fits show ?thesis by (simp add: total_supply_def)
    qed
  next
    case False
    then have "mint e to n s = Some (Inl SafeMath_add)"
      by (simp add: mint_def Let_def safe_add_def)
    with False show ?thesis by (simp add: total_supply_def)
  qed
next
  assume m: "mint e to n s = Some (Inr (s', events, rounds))"
  note eff = mint_effect [OF m]
  from eff(10) show "total_supply s' = total_supply s + n"
    by (simp add: total_supply_def supply_get_def)
  with eff(3) show "unat (total_supply s') = unat (total_supply s) + unat n"
    by (simp add: total_supply_def unat_word_ariths)
qed

theorem supply_bound_witness:
  "reachable alice_has_one \<and> total_supply alice_has_one \<le> MAX_SUPPLY
   \<and> unat (total_supply (init_state\<lparr>supply_obj := Some 9999998\<rparr>)) + unat (5 :: u64)
        > unat MAX_SUPPLY
   \<and> mint (host alice) alice 5 (init_state\<lparr>supply_obj := Some 9999998\<rparr>)
        = Some (Inl (Require reversion ''token id out of bounds''))
   \<and> kind_of_error (Require reversion ''token id out of bounds'') = Some CapacityError
   \<and> unat (total_supply alice_has_one) + unat (18446744073709551615 :: u64) > unat MAX_SUPPLY
   \<and> mint (host alice) alice 18446744073709551615 alice_has_one = Some (Inl SafeMath_add)
   \<and> kind_of_error SafeMath_add = Some CapacityError
   \<and> unat (total_supply (init_state\<lparr>supply_obj := Some 9999998\<rparr>)) + unat (11 :: u64)
        > unat MAX_SUPPLY
   \<and> mint (host alice) alice 11 (init_state\<lparr>supply_obj := Some 9999998\<rparr>)
        = Some (Inl (Require reversion ''exceeds the limit of tokens to mint of 10''))
   \<and> kind_of_error (Require reversion ''exceeds the limit of tokens to mint of 10'')
        = Some ValidationError
   \<and> mint (host alice) alice 1 init_state
        = Some (Inr (alice_has_one, [(mint_event alice ''1'', [alice])], 13))
   \<and> unat (total_supply alice_has_one) = unat (total_supply init_state) + unat (1 :: u64)"
proof -
  have 1: "unat (total_supply (init_state\<lparr>supply_obj := Some 9999998\<rparr>)) + unat (5 :: u64)
      > unat MAX_SUPPLY"
    by (simp add: total_supply_def supply_get_def MAX_SUPPLY_def)
  have 2: "mint (host alice) alice 5 (init_state\<lparr>supply_obj := Some 9999998\<rparr>)
        = Some (Inl (Require reversion ''token id out of bounds''))"
    by (simp add: mint_def Let_def supply_get_def safe_add_def MAX_SUPPLY_def)
  have 3: "unat (total_supply alice_has_one) + unat (18446744073709551615 :: u64)
      > unat MAX_SUPPLY"
    by (simp add: total_supply_def supply_get_def MAX_SUPPLY_def alice_has_one_def)
  have 4: "mint (host alice) alice 18446744073709551615 alice_has_one = Some (Inl SafeMath_add)"
    by (simp add: mint_def Let_def supply_get_def safe_add_def alice_has_one_def)
  have 5: "unat (total_supply (init_state\<lparr>supply_obj := Some 9999998\<rparr>)) + unat (11 :: u64)
      > unat MAX_SUPPLY"
    by (simp add: total_supply_def supply_get_def MAX_SUPPLY_def)
  have 6: "mint (host alice) alice 11 (init_state\<lparr>supply_obj := Some 9999998\<rparr>)
        = Some (Inl (Require reversion ''exceeds the limit of tokens to mint of 10''))"
    by (simp add: mint_def Let_def supply_get_def safe_add_def)
  let ?near = "init_state\<lparr>supply_obj := Some 9999998\<rparr>"
  from supply_bound [of alice_has_one 5 "host alice" alice] reachable_alice_has_one
  have a: "total_supply alice_has_one \<le> MAX_SUPPLY" by blast
  from supply_bound [of ?near 5 "host alice" alice] 1 2
  have b: "kind_of_error (Require reversion ''token id out of bounds'') = Some CapacityError"
    by simp
  from supply_bound [of alice_has_one 18446744073709551615 "host alice" alice] 3 4
  have c: "kind_of_error SafeMath_add = Some CapacityError"
    by simp
  from supply_bound [of ?near 11 "host alice" alice] 5 6
  have d: "kind_of_error (Require reversion ''exceeds the limit of tokens to mint of 10'')
      = Some ValidationError"
    by simp
  from supply_bound [of init_state 1 "host alice" alice alice_has_one
      "[(mint_event alice ''1'', [alice])]" 13] mint_example
  have e: "unat (total_supply alice_has_one) = unat (total_supply init_state) + unat (1 :: u64)"
    by blast
  from reachable_alice_has_one a 1 2 b 3 4 c 5 6 d mint_example e
  show ?thesis by blast
qed

text \<open>The claim as it was stated fails for a count above 10 whose sum with the supply
  fits in 64 bits: the count is refused first, with the failure the specification calls a
  validation failure.\<close>

theorem supply_bound_counterexample:
  "unat (total_supply init_state) + unat (10000001 :: u64) > unat MAX_SUPPLY
   \<and> mint (host alice) alice 10000001 init_state
       = Some (Inl (Require reversion ''exceeds the limit of tokens to mint of 10''))
   \<and> kind_of_error (Require reversion ''exceeds the limit of tokens to mint of 10'')
       = Some ValidationError
   \<and> kind_of_error (Require reversion ''exceeds the limit of tokens to mint of 10'')
       \<noteq> Some CapacityError"
  by (simp add: mint_def Let_def supply_get_def safe_add_def MAX_SUPPLY_def init_state_def
      total_supply_def)

subsection \<open>The bounds on the count of a mint\<close>

text \<open>
  C6, amended. In every reachable storage a mint of 11 tokens fails with a validation
  failure. A mint of 0 tokens fails when the supply is 0 (the id is out of bounds). The
  count of a successful mint is at most 10, and the supply after it is at least 1: the
  code has no lower bound of 1 on the count.
\<close>

theorem mint_count_bounds:
  "(reachable s \<longrightarrow>
      mint e to 11 s = Some (Inl (Require reversion ''exceeds the limit of tokens to mint of 10''))
      \<and> kind_of_error (Require reversion ''exceeds the limit of tokens to mint of 10'')
          = Some ValidationError)
   \<and> (total_supply s = 0 \<longrightarrow>
        mint e to 0 s = Some (Inl (Require reversion ''token id out of bounds'')))
   \<and> (mint e to n s = Some (Inr (s', events, rounds)) \<longrightarrow>
        n \<le> 10 \<and> 1 \<le> unat (total_supply s) + unat n)"
proof (intro conjI impI)
  assume "reachable s"
  then have "ledger_bounded s" by (rule reachable_ledger_bounded)
  then have "unat (supply_get s) \<le> 10000000"
    by (simp add: ledger_bounded_def word_le_nat_alt unat_MAX_SUPPLY)
  then have "unat (supply_get s) + unat (11 :: u64) < 2 ^ 64"
    by simp
  then show "mint e to 11 s
      = Some (Inl (Require reversion ''exceeds the limit of tokens to mint of 10''))"
    by (simp add: mint_def Let_def safe_add_def)
next
  show "kind_of_error (Require reversion ''exceeds the limit of tokens to mint of 10'')
      = Some ValidationError"
    by simp
next
  assume "total_supply s = 0"
  then show "mint e to 0 s = Some (Inl (Require reversion ''token id out of bounds''))"
    by (simp add: mint_def Let_def safe_add_def total_supply_def)
next
  assume m: "mint e to n s = Some (Inr (s', events, rounds))"
  from mint_effect(1) [OF m] show "n \<le> 10" .
  from mint_effect(2) [OF m] have "0 < unat (supply_get s) + unat n" .
  then show "1 \<le> unat (total_supply s) + unat n"
    unfolding total_supply_def by linarith
qed

theorem mint_count_bounds_witness:
  "reachable alice_has_one
   \<and> mint (host bob) bob 11 alice_has_one
       = Some (Inl (Require reversion ''exceeds the limit of tokens to mint of 10''))
   \<and> total_supply init_state = 0
   \<and> mint (host bob) bob 0 init_state = Some (Inl (Require reversion ''token id out of bounds''))
   \<and> mint (host alice) alice 1 init_state
        = Some (Inr (alice_has_one, [(mint_event alice ''1'', [alice])], 13))
   \<and> (1 :: u64) \<le> 10 \<and> 1 \<le> unat (total_supply init_state) + unat (1 :: u64)"
proof -
  have 0: "total_supply init_state = 0"
    by (simp add: total_supply_def supply_get_def init_state_def)
  from mint_count_bounds [of alice_has_one "host bob" bob]
    mint_count_bounds [of init_state "host bob" bob]
    mint_count_bounds [of init_state "host alice" alice 1 alice_has_one
      "[(mint_event alice ''1'', [alice])]" 13]
    reachable_alice_has_one 0 mint_example
  show ?thesis by simp
qed

text \<open>The claim as it was stated fails for the count 0: once a token exists, a mint of
  0 tokens succeeds and changes nothing.\<close>

theorem mint_zero_counterexample:
  "reachable alice_has_one
   \<and> mint (host alice) alice 0 alice_has_one = Some (Inr (alice_has_one, [], 0))"
proof -
  have "mint (host alice) alice 0 alice_has_one = Some (Inr (alice_has_one, [], 0))"
    by (simp add: mint_def Let_def alice_has_one_def supply_get_def balances_get_def
      safe_add_def MAX_SUPPLY_def mint_loop.simps
      mint_finish_def remainingManaToConsume_def safe_mul_def host_def manaCost_get_def
      MINT_PRICE_def consumeMana_def safe_div_def consume_loop_rounds word_le_nat_alt)
  with reachable_alice_has_one show ?thesis by simp
qed

subsection \<open>A transfer from an account to itself\<close>

lemma transfer_self_example:
  "transfer (host alice) alice alice ''1'' alice_has_one
     = Inr (alice_has_one\<lparr>balances := [alice \<mapsto> 0], tokensOf := [alice \<mapsto> [''1'', ''1'']]\<rparr>,
            [(transfer_event alice alice ''1'', [alice, alice])])"
  by (simp add: transfer_def Let_def alice_has_one_def host_def safe_sub_def safe_add_def
      balances_get_def tokensOf_get_def splice1_def alice_def)

lemma mint_two_example:
  "mint (host alice) alice 2 init_state
     = Some (Inr (alice_has_two,
                  [(mint_event alice ''1'', [alice]), (mint_event alice ''2'', [alice])],
                  80270))"
  by (simp add: mint_def Let_def init_state_def alice_has_two_def supply_get_def balances_get_def
      safe_add_def MAX_SUPPLY_def mint_loop.simps mint_body_eq toString_def decimal.simps
      tokensOf_get_def
      mint_finish_def remainingManaToConsume_def safe_mul_def host_def manaCost_get_def
      MINT_PRICE_def consumeMana_def safe_div_def consume_loop_rounds word_le_nat_alt)

lemma transfer_two_example:
  "transfer (host alice) alice alice ''2'' alice_has_two
     = Inr (alice_moved_two, [(transfer_event alice alice ''2'', [alice, alice])])"
  by (simp add: transfer_def Let_def alice_has_two_def alice_moved_two_def host_def safe_sub_def
      safe_add_def balances_get_def tokensOf_get_def splice1_def alice_def)

lemma reachable_alice_moved_two: "reachable alice_moved_two"
  using reach_transfer [OF reach_mint [OF reach_init mint_two_example] transfer_two_example] .

text \<open>
  C10, amended. In a reachable storage where \<open>A\<close> owns \<open>t\<close> and has the stored balance
  \<open>v \<ge> 1\<close>, a transfer of \<open>t\<close> from \<open>A\<close> to \<open>A\<close> by \<open>A\<close> or by an approved caller
  succeeds; after it the balance of \<open>A\<close> is \<open>v - 1\<close> and the list of \<open>A\<close> is the list
  before with \<open>t\<close> appended, so that \<open>t\<close> is in it once more than before and at least
  twice.
\<close>

theorem self_transfer:
  assumes "reachable s"
    and "owner_of s t = A" and "tokens s t \<noteq> None"
    and "balance_of s A = v" and "1 \<le> v"
    and "caller e = A \<or> isTokenApproved e A t A s"
  shows "\<exists>s' events. transfer e A A t s = Inr (s', events)
     \<and> balance_of s' A = v - 1 \<and> unat (balance_of s' A) = unat v - 1
     \<and> tokens_of s' A = tokens_of s A @ [t]
     \<and> count_list (tokens_of s' A) t = count_list (tokens_of s A) t + 1
     \<and> 2 \<le> count_list (tokens_of s' A) t
     \<and> owner_of s' t = A"
proof -
  from assms(2,3) have tok: "tokens s t = Some A"
    by (auto simp: owner_of_def)
  from assms(1) have inv: "ledger_bounded s" by (rule reachable_ledger_bounded)
  with tok have mem: "t \<in> set (tokensOf_get s A)"
    by (simp add: ledger_bounded_def)
  from assms(4) have v: "balances_get s A = v" by (simp add: balance_of_def)
  from ledger_bounded_balance [OF inv, of A] v have "unat v + unat (1 :: u64) < 2 ^ 64"
    by simp
  then have add: "safe_add v 1 = Inr (v + 1)"
    by (simp add: safe_add_def)
  from assms(5) have sub: "safe_sub v 1 = Inr (v - 1)"
    by (simp add: safe_sub_def)
  from mem have idx: "0 \<le> indexOf (tokensOf_get s A) t"
    by (simp add: indexOf_nonneg_iff)
  let ?s1 = "s\<lparr>approvals := (approvals s)(t := None)\<rparr>"
  have get1: "balances_get ?s1 = balances_get s" "tokensOf_get ?s1 = tokensOf_get s"
    by (simp_all add: balances_get_def tokensOf_get_def fun_eq_iff)
  have auth: "(if caller e \<noteq> A
               then require (isTokenApproved e A t A s)
                      ''from has not authorized transfer'' authorization_failure
               else Inr ()) = Inr ()"
    using assms(6) by auto
  let ?s' = "s\<lparr>approvals := (approvals s)(t := None),
               tokensOf := (tokensOf s)(A \<mapsto> tokensOf_get s A @ [t]),
               tokens := (tokens s)(t \<mapsto> A),
               balances := (balances s)(A \<mapsto> v - 1)\<rparr>"
  have run: "transfer e A A t s = Inr (?s', [(transfer_event A A t, [A, A])])"
    by (simp add: transfer_def tok auth Let_def get1 v add sub idx)
  have 1: "balance_of ?s' A = v - 1"
    by (simp add: balance_of_def balances_get_def)
  from unat_sub [OF assms(5)] have 2: "unat (balance_of ?s' A) = unat v - 1"
    by (simp add: 1)
  have 3: "tokens_of ?s' A = tokens_of s A @ [t]"
    by (simp add: tokens_of_def tokensOf_get_def)
  have 4: "count_list (tokens_of ?s' A) t = count_list (tokens_of s A) t + 1"
    by (simp add: 3)
  from mem have "count_list (tokens_of s A) t \<noteq> 0"
    by (simp add: count_list_0_iff tokens_of_def)
  with 4 have 5: "2 \<le> count_list (tokens_of ?s' A) t"
    by linarith
  have 6: "owner_of ?s' t = A"
    by (simp add: owner_of_def)
  from run 1 2 3 4 5 6 show ?thesis by blast
qed

theorem self_transfer_witness:
  "reachable alice_has_one
   \<and> owner_of alice_has_one ''1'' = alice \<and> tokens alice_has_one ''1'' \<noteq> None
   \<and> balance_of alice_has_one alice = 1 \<and> (1 :: u64) \<le> 1
   \<and> caller (host alice) = alice
   \<and> (\<exists>s' events. transfer (host alice) alice alice ''1'' alice_has_one = Inr (s', events)
        \<and> balance_of s' alice = 0
        \<and> tokens_of s' alice = [''1'', ''1''])"
proof -
  have 1: "owner_of alice_has_one ''1'' = alice" "tokens alice_has_one ''1'' \<noteq> None"
    by (simp_all add: owner_of_def alice_has_one_def)
  have 2: "balance_of alice_has_one alice = 1"
    by (simp add: balance_of_def balances_get_def alice_has_one_def)
  have 3: "caller (host alice) = alice \<or> isTokenApproved (host alice) alice ''1'' alice alice_has_one"
    by (simp add: host_def)
  have 4: "tokens_of alice_has_one alice = [''1'']"
    by (simp add: tokens_of_def tokensOf_get_def alice_has_one_def)
  from self_transfer [OF reachable_alice_has_one 1 2 _ 3] reachable_alice_has_one 1 2 4
  show ?thesis
    by (auto simp: host_def)
qed

text \<open>
  The claim as it was stated fails at two inputs. After a mint of two tokens and one
  transfer of token \<open>2\<close> from \<open>alice\<close> to herself, a second such transfer leaves the
  token three times in her list, not twice. And in a storage that no run reaches, where
  \<open>alice\<close> owns token \<open>1\<close> with balance 1 and her list is empty, the transfer is
  refused by the test on the list.
\<close>

theorem self_transfer_counterexample:
  "reachable alice_moved_two
   \<and> owner_of alice_moved_two ''2'' = alice \<and> tokens alice_moved_two ''2'' \<noteq> None
   \<and> balance_of alice_moved_two alice = 1
   \<and> caller (host alice) = alice
   \<and> transfer (host alice) alice alice ''2'' alice_moved_two
       = Inr (alice_moved_two\<lparr>balances := [alice \<mapsto> 0],
                                tokensOf := [alice \<mapsto> [''1'', ''2'', ''2'', ''2'']]\<rparr>,
              [(transfer_event alice alice ''2'', [alice, alice])])
   \<and> count_list (tokens_of (alice_moved_two\<lparr>balances := [alice \<mapsto> 0],
                     tokensOf := [alice \<mapsto> [''1'', ''2'', ''2'', ''2'']]\<rparr>) alice) ''2'' = 3
   \<and> owner_of (alice_has_one\<lparr>tokensOf := Map.empty\<rparr>) ''1'' = alice
   \<and> tokens (alice_has_one\<lparr>tokensOf := Map.empty\<rparr>) ''1'' \<noteq> None
   \<and> balance_of (alice_has_one\<lparr>tokensOf := Map.empty\<rparr>) alice = 1
   \<and> transfer (host alice) alice alice ''1'' (alice_has_one\<lparr>tokensOf := Map.empty\<rparr>)
       = Inl (Require reversion ''the sender do not own this token according to tokens list'')"
proof -
  have 1: "owner_of alice_moved_two ''2'' = alice \<and> tokens alice_moved_two ''2'' \<noteq> None
      \<and> balance_of alice_moved_two alice = 1 \<and> caller (host alice) = alice"
    by (simp add: owner_of_def balance_of_def balances_get_def alice_moved_two_def host_def)
  have 2: "transfer (host alice) alice alice ''2'' alice_moved_two
       = Inr (alice_moved_two\<lparr>balances := [alice \<mapsto> 0],
                                tokensOf := [alice \<mapsto> [''1'', ''2'', ''2'', ''2'']]\<rparr>,
              [(transfer_event alice alice ''2'', [alice, alice])])"
    by (simp add: transfer_def Let_def alice_moved_two_def host_def safe_sub_def
      safe_add_def balances_get_def tokensOf_get_def splice1_def alice_def)
  have 3: "count_list (tokens_of (alice_moved_two\<lparr>balances := [alice \<mapsto> 0],
                     tokensOf := [alice \<mapsto> [''1'', ''2'', ''2'', ''2'']]\<rparr>) alice) ''2'' = 3"
    by (simp add: tokens_of_def tokensOf_get_def)
  have 4: "owner_of (alice_has_one\<lparr>tokensOf := Map.empty\<rparr>) ''1'' = alice
      \<and> tokens (alice_has_one\<lparr>tokensOf := Map.empty\<rparr>) ''1'' \<noteq> None
      \<and> balance_of (alice_has_one\<lparr>tokensOf := Map.empty\<rparr>) alice = 1"
    by (simp add: owner_of_def balance_of_def balances_get_def alice_has_one_def)
  have 5: "transfer (host alice) alice alice ''1'' (alice_has_one\<lparr>tokensOf := Map.empty\<rparr>)
       = Inl (Require reversion ''the sender do not own this token according to tokens list'')"
    by (simp add: transfer_def Let_def alice_has_one_def host_def safe_sub_def
      safe_add_def balances_get_def tokensOf_get_def alice_def)
  from reachable_alice_moved_two 1 2 3 4 5 show ?thesis by blast
qed

subsection \<open>Decimal strings\<close>

lemma decimal_not_Nil: "decimal n \<noteq> []"
  by (subst decimal.simps) simp

lemma digit_inj:
  "i < 10 \<Longrightarrow> j < 10 \<Longrightarrow> ''0123456789'' ! i = ''0123456789'' ! j \<longleftrightarrow> i = j"
  by (rule nth_eq_iff_index_eq) simp_all

lemma decimal_inj: "decimal m = decimal n \<Longrightarrow> m = n"
proof (induction m arbitrary: n rule: decimal.induct)
  case (1 m)
  show ?case
  proof (cases "m < 10")
    case m: True
    show ?thesis
    proof (cases "n < 10")
      case True
      with m "1.prems" show ?thesis
        by (simp add: decimal.simps [of m] decimal.simps [of n] digit_inj)
    next
      case False
      with m "1.prems" decimal_not_Nil [of "n div 10"] show ?thesis
        by (simp add: decimal.simps [of m] decimal.simps [of n])
    qed
  next
    case m: False
    show ?thesis
    proof (cases "n < 10")
      case True
      with m "1.prems" decimal_not_Nil [of "m div 10"] show ?thesis
        by (simp add: decimal.simps [of m] decimal.simps [of n])
    next
      case False
      with m "1.prems" have eq: "decimal (m div 10) = decimal (n div 10)"
        and "''0123456789'' ! (m mod 10) = ''0123456789'' ! (n mod 10)"
        by (simp_all add: decimal.simps [of m] decimal.simps [of n])
      then have "m mod 10 = n mod 10"
        by (simp add: digit_inj)
      moreover from "1.IH" [OF m eq] have "m div 10 = n div 10" .
      ultimately show ?thesis
        by (metis div_mult_mod_eq)
    qed
  qed
qed


subsection \<open>The ledger without transfers from an account to itself\<close>

lemma ledger_consistent_init: "ledger_consistent init_state"
  by (simp add: ledger_consistent_def init_state_def supply_get_def tokensOf_get_def
      balances_get_def MAX_SUPPLY_def)

lemma ledger_consistent_frame:
  assumes "ledger_consistent s"
    and "balances s' = balances s" and "supply_obj s' = supply_obj s"
    and "tokens s' = tokens s" and "tokensOf s' = tokensOf s"
  shows "ledger_consistent s'"
  using assms
  by (simp add: ledger_consistent_def balances_get_def supply_get_def tokensOf_get_def)

lemma ledger_consistent_mint:
  assumes inv: "ledger_consistent s"
    and mint: "mint e to n s = Some (Inr (s', events, rounds))"
  shows "ledger_consistent s'"
proof -
  note eff = mint_effect [OF mint]
  define u where "u = unat (supply_get s)"
  define k where "k = unat n"
  define ids where "ids = map decimal [Suc u ..< Suc (u + k)]"
  note eff' = eff [folded u_def k_def, folded ids_def]
  from inv have dom: "dom (tokens s) = decimal ` {1 .. u}"
    and lists: "\<And>a. distinct (tokensOf_get s a)"
      "\<And>a. set (tokensOf_get s a) = {t. tokens s t = Some a}"
      "\<And>a. unat (balances_get s a) = length (tokensOf_get s a)"
    by (simp_all add: ledger_consistent_def u_def)
  have inj: "inj_on decimal A" for A
    by (rule inj_onI) (rule decimal_inj)
  have set_ids: "set ids = decimal ` {Suc u .. u + k}"
    by (auto simp: ids_def simp del: upt_Suc)
  have dist_ids: "distinct ids"
    unfolding ids_def by (simp add: distinct_map inj del: upt_Suc)
  have len_ids: "length ids = k"
    by (simp add: ids_def del: upt_Suc)
  have fresh: "tokens s t = None" if "t \<in> set ids" for t
  proof -
    from that obtain i where i: "t = decimal i" "Suc u \<le> i" by (auto simp: set_ids)
    have "t \<notin> decimal ` {1 .. u}"
    proof
      assume "t \<in> decimal ` {1 .. u}"
      then obtain j where "t = decimal j" "j \<le> u" by auto
      with i decimal_inj [of i j] show False by simp
    qed
    with dom show ?thesis by auto
  qed
  have usup: "unat (supply_get s + n) = u + k"
    using eff(3) by (simp add: unat_word_ariths u_def k_def)
  have sup': "supply_get s' = supply_get s + n"
    using eff(10) by (simp add: supply_get_def)
  have 1: "supply_get s' \<le> MAX_SUPPLY"
    using eff(3) sup' usup by (simp add: word_le_nat_alt unat_MAX_SUPPLY u_def k_def)
  have "dom (tokens s') = dom (tokens s) \<union> set ids"
    using eff'(7) by (auto simp: dom_def)
  also have "\<dots> = decimal ` ({1 .. u} \<union> {Suc u .. u + k})"
    by (simp add: dom set_ids image_Un)
  also have "{1 .. u} \<union> {Suc u .. u + k} = {1 .. u + k}"
    by auto
  finally have 2: "dom (tokens s') = decimal ` {1 .. unat (supply_get s')}"
    by (simp add: sup' usup)
  have 3: "distinct (tokensOf_get s' a) \<and> set (tokensOf_get s' a) = {t. tokens s' t = Some a}
      \<and> unat (balances_get s' a) = length (tokensOf_get s' a)" for a
  proof (cases "a = to")
    case True
    have "set (tokensOf_get s to) \<inter> set ids = {}"
      using fresh by (auto simp: lists(2))
    with lists(1) [of to] dist_ids have d: "distinct (tokensOf_get s to @ ids)"
      by simp
    have s: "set (tokensOf_get s to @ ids) = {t. tokens s' t = Some to}"
      using eff'(7) by (auto simp: lists(2))
    from eff(4) have "unat (balances_get s to + n) = unat (balances_get s to) + k"
      by (simp add: unat_word_ariths k_def)
    then have b: "unat (balances_get s' to) = length (tokensOf_get s to @ ids)"
      using eff(9) by (simp add: balances_get_def [of s'] lists(3) len_ids)
    from d s b True eff'(5) show ?thesis by simp
  next
    case False
    then have l: "tokensOf_get s' a = tokensOf_get s a"
      using eff(6) [of a] by (simp add: tokensOf_get_def)
    have "{t. tokens s' t = Some a} = {t. tokens s t = Some a}"
      using eff'(7) False fresh by auto
    moreover have "balances_get s' a = balances_get s a"
      using eff(9) False by (simp add: balances_get_def)
    ultimately show ?thesis
      using lists [of a] by (simp add: l)
  qed
  from 1 2 3 show ?thesis
    by (simp add: ledger_consistent_def)
qed


lemma ledger_consistent_transfer:
  assumes inv: "ledger_consistent s"
    and apart: "frm \<noteq> to"
    and transfer: "transfer e frm to token_id s = Inr (s', events)"
  shows "ledger_consistent s'"
proof -
  note eff = transfer_effect [OF transfer]
  from inv have sup: "supply_get s \<le> MAX_SUPPLY"
    and dom: "dom (tokens s) = decimal ` {1 .. unat (supply_get s)}"
    and lists: "\<And>a. distinct (tokensOf_get s a)"
      "\<And>a. set (tokensOf_get s a) = {t. tokens s t = Some a}"
      "\<And>a. unat (balances_get s a) = length (tokensOf_get s a)"
    by (simp_all add: ledger_consistent_def)
  have sup': "supply_get s' = supply_get s"
    by (subst eff(6)) (simp add: supply_get_def)
  have tok': "tokens s' = (tokens s)(token_id \<mapsto> to)"
    by (subst eff(6)) simp
  have "dom (tokens s') = insert token_id (dom (tokens s))"
    by (simp add: tok')
  also have "\<dots> = dom (tokens s)"
    using eff(1) by auto
  finally have 2: "dom (tokens s') = decimal ` {1 .. unat (supply_get s')}"
    by (simp add: dom sup')
  have list_to: "tokensOf_get s' to = tokensOf_get s to @ [token_id]"
    by (subst eff(6)) (simp add: tokensOf_get_def)
  have list_frm: "tokensOf_get s' frm = remove1 token_id (tokensOf_get s frm)"
    using apart by (subst eff(6)) (simp add: tokensOf_get_def)
  have list_other: "\<And>a. a \<noteq> to \<Longrightarrow> a \<noteq> frm \<Longrightarrow> tokensOf_get s' a = tokensOf_get s a"
    by (subst eff(6)) (simp add: tokensOf_get_def)
  have bal_to: "balances_get s' to = balances_get s to + 1"
    using apart by (subst eff(6)) (simp add: balances_get_def)
  have bal_frm: "balances_get s' frm = balances_get s frm - 1"
    by (subst eff(6)) (simp add: balances_get_def)
  have bal_other: "\<And>a. a \<noteq> to \<Longrightarrow> a \<noteq> frm \<Longrightarrow> balances_get s' a = balances_get s a"
    by (subst eff(6)) (simp add: balances_get_def)
  have ut: "unat (balances_get s to + 1) = unat (balances_get s to) + 1"
    using eff(4) by (simp add: unat_word_ariths)
  have "(1 :: u64) \<le> balances_get s frm"
    using eff(3) by (simp add: word_le_nat_alt)
  from unat_sub [OF this] have uf: "unat (balances_get s frm - 1) = unat (balances_get s frm) - 1"
    by simp
  have 3: "distinct (tokensOf_get s' a) \<and> set (tokensOf_get s' a) = {t. tokens s' t = Some a}
      \<and> unat (balances_get s' a) = length (tokensOf_get s' a)" for a
  proof -
    consider "a = to" | "a = frm" | "a \<noteq> to" "a \<noteq> frm" by blast
    then show ?thesis
    proof cases
      case 1
      from eff(1) apart have "token_id \<notin> set (tokensOf_get s to)"
        by (simp add: lists(2))
      with lists(1) [of to] have d: "distinct (tokensOf_get s to @ [token_id])"
        by simp
      have s: "set (tokensOf_get s to @ [token_id]) = {t. tokens s' t = Some to}"
        by (auto simp: lists(2) tok')
      from d s 1 list_to bal_to ut lists(3) [of to] show ?thesis by simp
    next
      case 2
      have d: "distinct (remove1 token_id (tokensOf_get s frm))"
        using lists(1) [of frm] by simp
      have s: "set (remove1 token_id (tokensOf_get s frm)) = {t. tokens s' t = Some frm}"
        using lists(1) [of frm] apart by (auto simp: lists(2) tok')
      have l: "length (remove1 token_id (tokensOf_get s frm)) = length (tokensOf_get s frm) - 1"
        using eff(5) by (simp add: length_remove1)
      from d s l 2 list_frm bal_frm uf lists(3) [of frm] show ?thesis by simp
    next
      case 3
      with eff(1) have "{t. tokens s' t = Some a} = {t. tokens s t = Some a}"
        by (auto simp: tok')
      with 3 list_other [of a] bal_other [of a] lists [of a] show ?thesis by simp
    qed
  qed
  from sup sup' 2 3 show ?thesis
    by (simp add: ledger_consistent_def)
qed

lemma reachable_apart_consistent: "reachable_apart s \<Longrightarrow> ledger_consistent s"
proof (induction rule: reachable_apart.induct)
  case apart_init
  show ?case by (rule ledger_consistent_init)
next
  case (apart_mint s e to n s' events rounds)
  then show ?case by (blast intro: ledger_consistent_mint)
next
  case (apart_transfer s frm to e token_id s' events)
  then show ?case by (blast intro: ledger_consistent_transfer)
next
  case (apart_approve s e approver to token_id s' events)
  from approve_Inr_D [OF apart_approve.hyps(2)] apart_approve.IH show ?case
    by (simp add: ledger_consistent_frame [of s])
next
  case (apart_set_approval_for_all s e approver operator approved s' events)
  from set_approval_for_all_Inr_D [OF apart_set_approval_for_all.hyps(2)]
    apart_set_approval_for_all.IH show ?case
    by (simp add: ledger_consistent_frame [of s])
next
  case (apart_burn s token_id s' events)
  then show ?case by (simp add: burn_def)
next
  case (apart_set_royalties s e "value" s' events)
  from set_royalties_Inr_D [OF apart_set_royalties.hyps(2)] apart_set_royalties.IH show ?case
    by (simp add: ledger_consistent_frame [of s])
next
  case (apart_transfer_ownership s e new_owner s' events)
  from transfer_ownership_Inr_D [OF apart_transfer_ownership.hyps(2)]
    apart_transfer_ownership.IH show ?case
    by (simp add: ledger_consistent_frame [of s])
qed

text \<open>
  Where no transfer has gone from an account to itself, the three numbers agree for
  every account: the stored balance, the number of tokens the account owns and the length
  of its list.
\<close>

lemma ledger_consistent_apart:
  assumes "reachable_apart s"
  shows "unat (balance_of s a) = card {t. tokens s t = Some a}
     \<and> unat (balance_of s a) = length (tokens_of s a)"
proof -
  from reachable_apart_consistent [OF assms]
  have d: "distinct (tokensOf_get s a)"
    and s: "set (tokensOf_get s a) = {t. tokens s t = Some a}"
    and b: "unat (balances_get s a) = length (tokensOf_get s a)"
    by (simp_all add: ledger_consistent_def)
  from distinct_card [OF d] s have "card {t. tokens s t = Some a} = length (tokensOf_get s a)"
    by simp
  with b show ?thesis
    by (simp add: balance_of_def tokens_of_def)
qed

subsection \<open>The ledger after a transfer from an account to itself\<close>

text \<open>
  C1 at the failing input: \<open>alice\<close> mints token \<open>1\<close> and transfers it to herself. The
  storage after the two calls is reachable; there \<open>alice\<close> owns one token, her stored
  balance is 0 and her list has two entries. (Without a transfer from an account to
  itself the three numbers agree, by \<open>ledger_consistent_apart\<close>.)
\<close>

theorem self_transfer_breaks_ledger:
  "mint (host alice) alice 1 init_state
     = Some (Inr (alice_has_one, [(mint_event alice ''1'', [alice])], 13))
   \<and> transfer (host alice) alice alice ''1'' alice_has_one
     = Inr (alice_has_one\<lparr>balances := [alice \<mapsto> 0], tokensOf := [alice \<mapsto> [''1'', ''1'']]\<rparr>,
            [(transfer_event alice alice ''1'', [alice, alice])])
   \<and> reachable (alice_has_one\<lparr>balances := [alice \<mapsto> 0], tokensOf := [alice \<mapsto> [''1'', ''1'']]\<rparr>)
   \<and> balance_of (alice_has_one\<lparr>balances := [alice \<mapsto> 0],
                    tokensOf := [alice \<mapsto> [''1'', ''1'']]\<rparr>) alice = 0
   \<and> card {t. tokens (alice_has_one\<lparr>balances := [alice \<mapsto> 0],
                    tokensOf := [alice \<mapsto> [''1'', ''1'']]\<rparr>) t = Some alice} = 1
   \<and> length (tokens_of (alice_has_one\<lparr>balances := [alice \<mapsto> 0],
                    tokensOf := [alice \<mapsto> [''1'', ''1'']]\<rparr>) alice) = 2"
proof -
  let ?s2 = "alice_has_one\<lparr>balances := [alice \<mapsto> 0], tokensOf := [alice \<mapsto> [''1'', ''1'']]\<rparr>"
  have r: "reachable ?s2"
    using reach_transfer [OF reachable_alice_has_one transfer_self_example] .
  have b: "balance_of ?s2 alice = 0"
    by (simp add: balance_of_def balances_get_def)
  have "{t. tokens ?s2 t = Some alice} = {''1''}"
    by (auto simp: alice_has_one_def split: if_splits)
  then have c: "card {t. tokens ?s2 t = Some alice} = 1"
    by simp
  have l: "length (tokens_of ?s2 alice) = 2"
    by (simp add: tokens_of_def tokensOf_get_def)
  from mint_example transfer_self_example r b c l show ?thesis
    by simp
qed

end
